theory Spec2Isabelle
  imports Main "HOL-Library.List_Lexorder"
begin

section \<open>JDON: the parser and serializer of src/parser.js\<close>

text \<open>
  A shallow embedding of class \<open>JDONParser\<close>. Every method is a HOL function
  of the same name; the exceptions thrown by \<open>parseObject\<close> and \<open>parseArray\<close>
  are values of a sum type; the \<open>for\<close> loops are recursive functions over the
  characters that remain, carrying the loop's local variables.
\<close>

subsection \<open>Strings\<close>

text \<open>
  A JavaScript string is a sequence of UTF-16 code units. A code unit is a natural
  number here (every real code unit is below 65536); \<open>str\<close> turns an Isabelle
  string literal into code units, for the literals of the source.
\<close>

type_synonym jstring = "nat list"

definition str :: "string \<Rightarrow> jstring" where
  "str = map of_char"

abbreviation (input) c_tab :: nat where "c_tab \<equiv> 9"
abbreviation (input) c_nl :: nat where "c_nl \<equiv> 10"
abbreviation (input) c_cr :: nat where "c_cr \<equiv> 13"
abbreviation (input) c_space :: nat where "c_space \<equiv> 32"
abbreviation (input) c_dquote :: nat where "c_dquote \<equiv> 34"
abbreviation (input) c_squote :: nat where "c_squote \<equiv> 39"
abbreviation (input) c_plus :: nat where "c_plus \<equiv> 43"
abbreviation (input) c_comma :: nat where "c_comma \<equiv> 44"
abbreviation (input) c_minus :: nat where "c_minus \<equiv> 45"
abbreviation (input) c_dot :: nat where "c_dot \<equiv> 46"
abbreviation (input) c_colon :: nat where "c_colon \<equiv> 58"
abbreviation (input) c_lbrack :: nat where "c_lbrack \<equiv> 91"
abbreviation (input) c_bslash :: nat where "c_bslash \<equiv> 92"
abbreviation (input) c_rbrack :: nat where "c_rbrack \<equiv> 93"
abbreviation (input) c_lbrace :: nat where "c_lbrace \<equiv> 123"
abbreviation (input) c_pipe :: nat where "c_pipe \<equiv> 124"
abbreviation (input) c_rbrace :: nat where "c_rbrace \<equiv> 125"

text \<open>
  \<open>String.prototype.trim\<close> removes white space and line terminators from both
  ends: TAB, LF, VT, FF, CR, SP, NBSP, U+1680, U+2000..U+200A, U+2028, U+2029, U+202F,
  U+205F, U+3000 and U+FEFF.
\<close>

definition is_space :: "nat \<Rightarrow> bool" where
  "is_space c = (c = 9 \<or> c = 10 \<or> c = 11 \<or> c = 12 \<or> c = 13 \<or> c = 32 \<or> c = 160
     \<or> c = 5760 \<or> (8192 \<le> c \<and> c \<le> 8202) \<or> c = 8232 \<or> c = 8233 \<or> c = 8239
     \<or> c = 8287 \<or> c = 12288 \<or> c = 65279)"

definition trim :: "jstring \<Rightarrow> jstring" where
  "trim s = rev (dropWhile is_space (rev (dropWhile is_space s)))"

definition startsWith :: "nat \<Rightarrow> jstring \<Rightarrow> bool" where
  "startsWith c s = (case s of [] \<Rightarrow> False | x # _ \<Rightarrow> x = c)"

definition endsWith :: "nat \<Rightarrow> jstring \<Rightarrow> bool" where
  "endsWith c s = (case rev s of [] \<Rightarrow> False | x # _ \<Rightarrow> x = c)"

definition includesChar :: "nat \<Rightarrow> jstring \<Rightarrow> bool" where
  "includesChar c s = (c \<in> set s)"

text \<open>\<open>s.slice(1, -1)\<close>: without the first and the last code unit.\<close>

definition slice_inner :: "jstring \<Rightarrow> jstring" where
  "slice_inner s = butlast (tl s)"

text \<open>\<open>parts.join(sep)\<close>.\<close>

fun join :: "jstring \<Rightarrow> jstring list \<Rightarrow> jstring" where
  "join sep [] = []"
| "join sep [x] = x"
| "join sep (x # y # ys) = x @ sep @ join sep (y # ys)"

subsection \<open>The lexical splitter\<close>

text \<open>
  The three scanning loops \<open>splitByPipe\<close>, \<open>splitArrayItems\<close> and
  \<open>findTopLevelColon\<close> open with the same statements: the quote test on \<open>char\<close>
  and \<open>prevChar\<close>, and, outside a string, the depth count. \<open>track\<close> is that
  block; \<open>stringChar\<close> is \<open>None\<close> for the initial \<open>""\<close>, and \<open>prevChar\<close>
  is \<open>None\<close> for \<open>input[-1]\<close>, which is \<open>undefined\<close>.
\<close>

datatype scan = Scan (depth: int) (inString: bool) (stringChar: "nat option")

definition scan0 :: scan where
  "scan0 = Scan 0 False None"

definition quoteStep :: "nat option \<Rightarrow> nat \<Rightarrow> scan \<Rightarrow> scan" where
  "quoteStep prevChar char st =
     (if (char = c_dquote \<or> char = c_squote) \<and> prevChar \<noteq> Some c_bslash then
        (if \<not> inString st then Scan (depth st) True (Some char)
         else if Some char = stringChar st then Scan (depth st) False (stringChar st)
         else st)
      else st)"

definition depthStep :: "nat \<Rightarrow> int \<Rightarrow> int" where
  "depthStep char d =
     (let d1 = (if char = c_lbrace \<or> char = c_lbrack then d + 1 else d)
      in if char = c_rbrace \<or> char = c_rbrack then d1 - 1 else d1)"

definition track :: "nat option \<Rightarrow> nat \<Rightarrow> scan \<Rightarrow> scan" where
  "track prevChar char st =
     (let st1 = quoteStep prevChar char st
      in if \<not> inString st1
         then Scan (depthStep char (depth st1)) (inString st1) (stringChar st1)
         else st1)"

fun splitByPipe_loop ::
  "nat option \<Rightarrow> jstring \<Rightarrow> jstring list \<Rightarrow> jstring \<Rightarrow> scan \<Rightarrow> jstring list" where
  "splitByPipe_loop prevChar [] parts current st =
     (if current \<noteq> [] then parts @ [current] else parts)"
| "splitByPipe_loop prevChar (char # rest) parts current st =
     (let st1 = track prevChar char st
      in if \<not> inString st1 \<and> char = c_pipe \<and> depth st1 = 0
         then splitByPipe_loop (Some char) rest (parts @ [current]) [] st1
         else splitByPipe_loop (Some char) rest parts (current @ [char]) st1)"

definition splitByPipe :: "jstring \<Rightarrow> jstring list" where
  "splitByPipe input = splitByPipe_loop None input [] [] scan0"

fun splitArrayItems_loop ::
  "nat option \<Rightarrow> jstring \<Rightarrow> jstring list \<Rightarrow> jstring \<Rightarrow> scan \<Rightarrow> jstring list" where
  "splitArrayItems_loop prevChar [] parts current st =
     (if trim current \<noteq> [] then parts @ [current] else parts)"
| "splitArrayItems_loop prevChar (char # rest) parts current st =
     (let st1 = track prevChar char st
      in if \<not> inString st1 \<and> char = c_comma \<and> depth st1 = 0
         then splitArrayItems_loop (Some char) rest
                (if trim current \<noteq> [] then parts @ [current] else parts) [] st1
         else splitArrayItems_loop (Some char) rest parts (current @ [char]) st1)"

definition splitArrayItems :: "jstring \<Rightarrow> jstring list" where
  "splitArrayItems input = splitArrayItems_loop None input [] [] scan0"

text \<open>\<open>findTopLevelColon\<close> returns the index, or \<open>None\<close> for the source's \<open>-1\<close>.\<close>

fun findTopLevelColon_loop ::
  "nat \<Rightarrow> nat option \<Rightarrow> jstring \<Rightarrow> scan \<Rightarrow> nat option" where
  "findTopLevelColon_loop i prevChar [] st = None"
| "findTopLevelColon_loop i prevChar (char # rest) st =
     (let st1 = track prevChar char st
      in if \<not> inString st1 \<and> char = c_colon \<and> depth st1 = 0
         then Some i
         else findTopLevelColon_loop (i + 1) (Some char) rest st1)"

definition findTopLevelColon :: "jstring \<Rightarrow> nat option" where
  "findTopLevelColon input = findTopLevelColon_loop 0 None input scan0"

subsection \<open>Escaping\<close>

text \<open>
  A global \<open>replace\<close> scans from the left and continues after each match. The
  patterns of \<open>unescapeString\<close> are two code units long, apart from the
  \<open>\uXXXX\<close> pattern and the final one.
\<close>

fun replace2 :: "nat \<Rightarrow> nat \<Rightarrow> jstring \<Rightarrow> jstring \<Rightarrow> jstring" where
  "replace2 a b r (x # y # zs) =
     (if x = a \<and> y = b then r @ replace2 a b r zs else x # replace2 a b r (y # zs))"
| "replace2 a b r [x] = [x]"
| "replace2 a b r [] = []"

definition replace1 :: "nat \<Rightarrow> jstring \<Rightarrow> jstring \<Rightarrow> jstring" where
  "replace1 a r s = concat (map (\<lambda>c. if c = a then r else [c]) s)"

definition is_hex :: "nat \<Rightarrow> bool" where
  "is_hex c = ((48 \<le> c \<and> c \<le> 57) \<or> (97 \<le> c \<and> c \<le> 102) \<or> (65 \<le> c \<and> c \<le> 70))"

definition hex_val :: "nat \<Rightarrow> nat" where
  "hex_val c = (if c \<le> 57 then c - 48 else if 97 \<le> c then c - 87 else c - 55)"

text \<open>\<open>parseInt(hex, 16)\<close> on hexadecimal digits.\<close>

definition parseInt16 :: "jstring \<Rightarrow> nat" where
  "parseInt16 hex = foldl (\<lambda>a c. 16 * a + hex_val c) 0 hex"

fun replaceUnicode :: "jstring \<Rightarrow> jstring" where
  "replaceUnicode (x # y # h1 # h2 # h3 # h4 # zs) =
     (if x = c_bslash \<and> y = 117 \<and> is_hex h1 \<and> is_hex h2 \<and> is_hex h3 \<and> is_hex h4
      then parseInt16 [h1, h2, h3, h4] # replaceUnicode zs
      else x # replaceUnicode (y # h1 # h2 # h3 # h4 # zs))"
| "replaceUnicode (x # xs) = x # replaceUnicode xs"
| "replaceUnicode [] = []"

definition unescapeString :: "jstring \<Rightarrow> jstring" where
  "unescapeString s =
     replace1 0 [c_bslash]
       (replaceUnicode
         (replace2 c_bslash c_squote [c_squote]
           (replace2 c_bslash c_dquote [c_dquote]
             (replace2 c_bslash 114 [c_cr]
               (replace2 c_bslash 116 [c_tab]
                 (replace2 c_bslash 110 [c_nl]
                   (replace2 c_bslash c_bslash [0] s)))))))"

definition hex_digit :: "nat \<Rightarrow> nat" where
  "hex_digit d = (if d < 10 then 48 + d else 87 + d)"

text \<open>\<open>n.toString(16)\<close>.\<close>

fun toString16 :: "nat \<Rightarrow> jstring" where
  "toString16 n =
     (if n < 16 then [hex_digit n] else toString16 (n div 16) @ [hex_digit (n mod 16)])"

declare toString16.simps [simp del]

text \<open>\<open>"\\u" + ("0000" + char.charCodeAt(0).toString(16)).slice(-4)\<close>.\<close>

definition unicodeEscape :: "nat \<Rightarrow> jstring" where
  "unicodeEscape c =
     (let padded = str ''0000'' @ toString16 c
      in [c_bslash, 117] @ drop (length padded - 4) padded)"

definition is_control :: "nat \<Rightarrow> bool" where
  "is_control c = (c \<le> 31 \<or> (127 \<le> c \<and> c \<le> 159))"

definition escapeString :: "jstring \<Rightarrow> jstring" where
  "escapeString s =
     concat (map (\<lambda>c. if is_control c then unicodeEscape c else [c])
       (replace1 c_cr [c_bslash, 114]
         (replace1 c_tab [c_bslash, 116]
           (replace1 c_nl [c_bslash, 110]
             (replace1 c_dquote [c_bslash, c_dquote]
               (replace1 c_bslash [c_bslash, c_bslash] s))))))"

definition needsQuoting :: "jstring \<Rightarrow> bool" where
  "needsQuoting s =
     (includesChar c_colon s \<or> includesChar c_pipe s \<or> includesChar c_comma s \<or> includesChar c_space s
      \<or> includesChar c_lbrace s \<or> includesChar c_rbrace s \<or> includesChar c_lbrack s
      \<or> includesChar c_rbrack s \<or> includesChar c_dquote s \<or> includesChar c_squote s
      \<or> includesChar c_nl s \<or> includesChar c_tab s)"

subsection \<open>Numbers\<close>

text \<open>
  A finite Number is kept as the decimal that \<open>Number::toString\<close> prints for it,
  its shortest round-trip decimal: a sign, the digits as a natural number and a power
  of ten, so that the value is \<open>coefficient * 10 ^ exponent\<close>; in normal form the
  coefficient has no trailing zero, and zero has exponent 0. \<open>Finite True 0 0\<close> is
  \<open>-0\<close>. A binary64 value and its shortest round-trip decimal determine each other,
  and \<open>parseFloat\<close> applied to that decimal returns that value, so on the texts that
  \<open>String(value)\<close> produces the model and the host agree. The host rounds every
  other numeric text to the nearest binary64 value (\<open>1e400\<close> to \<open>Infinity\<close>,
  \<open>-1e-400\<close> to \<open>-0\<close>); the model does not round: \<open>parseFloat\<close> here is exact
  on the decimal literal it reads, and theorems about Numbers are stated for decimals
  within the binary64 range only.
\<close>

datatype jnumber = NaN | Infinity | NegInfinity
  | Finite (negative: bool) (coefficient: nat) (exponent: int)

definition is_digit :: "nat \<Rightarrow> bool" where
  "is_digit c = (48 \<le> c \<and> c \<le> 57)"

fun digits_of :: "nat \<Rightarrow> jstring" where
  "digits_of n = (if n < 10 then [48 + n] else digits_of (n div 10) @ [48 + n mod 10])"

declare digits_of.simps [simp del]

definition nat_of_digits :: "jstring \<Rightarrow> nat" where
  "nat_of_digits ds = foldl (\<lambda>a c. 10 * a + (c - 48)) 0 ds"

text \<open>
  \<open>String(value)\<close> on a positive finite Number, by the cases of
  \<open>Number::toString\<close>: with \<open>k\<close> digits and the decimal point after the
  \<open>n\<close>-th digit, plain digits for \<open>k \<le> n \<le> 21\<close>, a decimal point for
  \<open>0 < n \<le> 21\<close>, leading zeros for \<open>-6 < n \<le> 0\<close>, and the exponent form otherwise.
\<close>

definition positiveToString :: "nat \<Rightarrow> int \<Rightarrow> jstring" where
  "positiveToString m e =
     (let ds = digits_of m; k = int (length ds); n = k + e
      in if k \<le> n \<and> n \<le> 21 then ds @ replicate (nat (n - k)) 48
         else if 0 < n \<and> n \<le> 21 then take (nat n) ds @ [c_dot] @ drop (nat n) ds
         else if -6 < n \<and> n \<le> 0 then [48, c_dot] @ replicate (nat (- n)) 48 @ ds
         else (let ex = n - 1;
                   tail = [101, if ex < 0 then c_minus else c_plus] @ digits_of (nat \<bar>ex\<bar>)
               in if k = 1 then ds @ tail else [hd ds, c_dot] @ tl ds @ tail))"

definition numberToString :: "jnumber \<Rightarrow> jstring" where
  "numberToString x =
     (case x of
        NaN \<Rightarrow> str ''NaN''
      | Infinity \<Rightarrow> str ''Infinity''
      | NegInfinity \<Rightarrow> str ''-Infinity''
      | Finite neg m e \<Rightarrow>
          if m = 0 then str ''0''
          else (if neg then [c_minus] else []) @ positiveToString m e)"

text \<open>The pattern \<open>/^-?(?:\d+\.?\d*|\.\d+)(?:[eE][+-]?\d+)?$/\<close> of \<open>parseValue\<close>.\<close>

definition exponent_re :: "jstring \<Rightarrow> bool" where
  "exponent_re r =
     (r = [] \<or>
      ((startsWith 101 r \<or> startsWith 69 r) \<and>
       (let r1 = tl r;
            r2 = (if startsWith c_plus r1 \<or> startsWith c_minus r1 then tl r1 else r1)
        in r2 \<noteq> [] \<and> list_all is_digit r2)))"

definition numeric_re :: "jstring \<Rightarrow> bool" where
  "numeric_re v =
     (let s1 = (if startsWith c_minus v then tl v else v);
          ip = takeWhile is_digit s1;
          r1 = dropWhile is_digit s1
      in if ip \<noteq> [] then
           (let r2 = (if startsWith c_dot r1 then tl r1 else r1)
            in exponent_re (dropWhile is_digit r2))
         else if startsWith c_dot r1 then
           takeWhile is_digit (tl r1) \<noteq> [] \<and> exponent_re (dropWhile is_digit (tl r1))
         else False)"

text \<open>The pattern \<open>/^\d{4}-\d{2}-\d{2}T\d{2}:\d{2}:\d{2}/\<close>, which matches a prefix.\<close>

definition date_re :: "jstring \<Rightarrow> bool" where
  "date_re v =
     (19 \<le> length v \<and>
      list_all is_digit (take 4 v) \<and> v ! 4 = c_minus \<and>
      list_all is_digit (take 2 (drop 5 v)) \<and> v ! 7 = c_minus \<and>
      list_all is_digit (take 2 (drop 8 v)) \<and> v ! 10 = 84 \<and>
      list_all is_digit (take 2 (drop 11 v)) \<and> v ! 13 = c_colon \<and>
      list_all is_digit (take 2 (drop 14 v)) \<and> v ! 16 = c_colon \<and>
      list_all is_digit (take 2 (drop 17 v)))"

fun normalize_decimal :: "nat \<Rightarrow> int \<Rightarrow> nat \<times> int" where
  "normalize_decimal m e =
     (if m = 0 then (0, 0)
      else if m mod 10 = 0 then normalize_decimal (m div 10) (e + 1)
      else (m, e))"

declare normalize_decimal.simps [simp del]

definition exponent_val :: "jstring \<Rightarrow> int" where
  "exponent_val r =
     (if r = [] then 0
      else (let r1 = tl r
            in if startsWith c_minus r1 then - int (nat_of_digits (tl r1))
               else if startsWith c_plus r1 then int (nat_of_digits (tl r1))
               else int (nat_of_digits r1)))"

text \<open>
  \<open>parseFloat\<close> on a text that matches the numeric pattern (the only place where
  \<open>parseValue\<close> calls it): the sign, the digits before and after the point, and the
  exponent.
\<close>

definition parseFloat :: "jstring \<Rightarrow> jnumber" where
  "parseFloat v =
     (let neg = startsWith c_minus v;
          s1 = (if neg then tl v else v);
          ip = takeWhile is_digit s1;
          r1 = dropWhile is_digit s1;
          r2 = (if startsWith c_dot r1 then tl r1 else r1);
          fp = takeWhile is_digit r2;
          r3 = dropWhile is_digit r2
      in case normalize_decimal (nat_of_digits (ip @ fp)) (exponent_val r3 - int (length fp)) of
           (m, e) \<Rightarrow> Finite neg m e)"

subsection \<open>Values\<close>

text \<open>
  An Object is the list of its own properties in property order, which is what
  \<open>Object.keys\<close> and \<open>Object.entries\<close> enumerate.
\<close>

datatype jvalue =
    JNull
  | JUndefined
  | JBoolean bool
  | JNumber jnumber
  | JString jstring
  | JArray "jvalue list"
  | JObject "(jstring \<times> jvalue) list"

text \<open>
  The assignment \<open>obj[key] = value\<close> on an object made by \<open>{}\<close>. A key that is
  already there keeps its place; a new array index (a canonical numeric string up to
  \<open>2^32 - 2\<close>) goes among the array indices in ascending order, which come first; any
  other new key goes last. The key \<open>__proto__\<close> reaches the setter inherited from
  \<open>Object.prototype\<close> and creates no property. The prototype of an object is not
  part of a value here: an object whose prototype an earlier \<open>__proto__\<close> pair has
  changed is outside the model, and the theorems below that build objects do so from
  keys other than \<open>__proto__\<close>.
\<close>

definition is_array_index :: "jstring \<Rightarrow> bool" where
  "is_array_index key =
     (key \<noteq> [] \<and> list_all is_digit key \<and> (key = [48] \<or> hd key \<noteq> 48)
      \<and> nat_of_digits key \<le> 4294967294)"

definition before_index :: "jstring \<Rightarrow> jstring \<times> 'v \<Rightarrow> bool" where
  "before_index key kv = (is_array_index (fst kv) \<and> nat_of_digits (fst kv) < nat_of_digits key)"

definition obj_set :: "(jstring \<times> 'v) list \<Rightarrow> jstring \<Rightarrow> 'v \<Rightarrow> (jstring \<times> 'v) list" where
  "obj_set obj key v =
     (if key = str ''__proto__'' then obj
      else if key \<in> set (map fst obj) then map (\<lambda>kv. if fst kv = key then (key, v) else kv) obj
      else if is_array_index key then
        takeWhile (before_index key) obj @ [(key, v)] @ dropWhile (before_index key) obj
      else obj @ [(key, v)])"

text \<open>\<open>Object.keys(value)\<close>, and the read \<open>obj[key]\<close>, \<open>undefined\<close> for a missing key.\<close>

definition keys_of :: "jvalue \<Rightarrow> jstring list" where
  "keys_of v = (case v of JObject entries \<Rightarrow> map fst entries | _ \<Rightarrow> [])"

definition prop_get :: "jvalue \<Rightarrow> jstring \<Rightarrow> jvalue" where
  "prop_get obj key =
     (case obj of
        JObject entries \<Rightarrow> (case map_of entries key of None \<Rightarrow> JUndefined | Some v \<Rightarrow> v)
      | _ \<Rightarrow> JUndefined)"

subsection \<open>The serializer\<close>

definition is_object :: "jvalue \<Rightarrow> bool" where
  "is_object v = (case v of JObject _ \<Rightarrow> True | _ \<Rightarrow> False)"

text \<open>
  \<open>isArrayOfObjects\<close>: every item is a non-null, non-array object, and the sorted
  key list of every item equals that of the first (same length, same key at each
  index). The default \<open>sort\<close> orders strings by code units.
\<close>

definition isArrayOfObjects :: "jvalue list \<Rightarrow> bool" where
  "isArrayOfObjects arr =
     (arr \<noteq> [] \<and> list_all is_object arr \<and>
      (let firstKeys = sort (keys_of (hd arr))
       in list_all (\<lambda>item. sort (keys_of item) = firstKeys) arr))"

definition indentation :: "nat \<Rightarrow> jstring" where
  "indentation n = concat (replicate n (str ''  ''))"

lemma size_entry: "x \<in> set entries \<Longrightarrow> size (snd x) < size (JObject entries)"
  apply (induction entries)
   apply simp
  apply (cases x)
  apply auto
  done

lemma size_item: "x \<in> set arr \<Longrightarrow> size x < size (JArray arr)"
  by (induction arr) auto

lemma size_prop_get: "size (prop_get obj key) \<le> size obj"
proof (cases obj)
  case (JObject entries)
  have "map_of entries key = Some v \<Longrightarrow> (key, v) \<in> set entries" for v
    by (rule map_of_SomeD)
  then show ?thesis
    using JObject size_entry[of "(key, v)" entries for v]
    by (fastforce simp: prop_get_def split: option.splits)
qed (simp_all add: prop_get_def)

function stringifyValue :: "jvalue \<Rightarrow> nat \<Rightarrow> bool \<Rightarrow> bool \<Rightarrow> jstring"
  and stringifyColumnar :: "jvalue list \<Rightarrow> nat \<Rightarrow> bool \<Rightarrow> jstring" where
  "stringifyValue JNull dep pty col = str ''null''"
| "stringifyValue JUndefined dep pty col = str ''undefined''"
| "stringifyValue (JBoolean b) dep pty col = (if b then str ''true'' else str ''false'')"
| "stringifyValue (JNumber x) dep pty col =
     (case x of
        NaN \<Rightarrow> str ''NaN''
      | Infinity \<Rightarrow> str ''Infinity''
      | NegInfinity \<Rightarrow> str ''-Infinity''
      | Finite neg m e \<Rightarrow> if neg \<and> m = 0 then str ''-0'' else numberToString x)"
| "stringifyValue (JString s) dep pty col =
     (if needsQuoting s then [c_dquote] @ escapeString s @ [c_dquote] else s)"
| "stringifyValue (JArray arr) dep pty col =
     (if arr = [] then str ''[]''
      else if col \<and> isArrayOfObjects arr then stringifyColumnar arr dep pty
      else
        (let items = map (\<lambda>item. stringifyValue item (dep + 1) pty col) arr
         in [c_lbrack] @ replace1 c_pipe [c_comma] (join [c_comma] items) @ [c_rbrack]))"
| "stringifyValue (JObject entries) dep pty col =
     (if entries = [] then str ''{}''
      else
        (let pairs = map (\<lambda>kv. fst kv @ [c_colon] @
                       stringifyValue (snd kv) (dep + 1) pty col) entries
         in if pty \<and> dep = 0 then join [c_pipe, c_nl] pairs
            else if pty then
              (let indent = [c_nl] @ indentation (dep + 1);
                   closeIndent = [c_nl] @ indentation dep
               in [c_lbrace] @ indent @ join ([c_pipe] @ indent) pairs @ closeIndent
                  @ [c_rbrace])
            else [c_lbrace] @ join [c_pipe] pairs @ [c_rbrace]))"
| "stringifyColumnar arr dep pty =
     (if arr = [] then str ''[]''
      else
        (let keys = keys_of (hd arr);
             columns = map (\<lambda>key. key @ [c_colon] @
                         join [c_comma]
                           (map (\<lambda>obj. stringifyValue (prop_get obj key) (dep + 1) False False)
                              arr)) keys
         in if pty then
              (let indent = [c_nl, c_space, c_space]
               in [c_lbrack] @ indent @ join ([c_pipe] @ indent) columns @ [c_nl, c_rbrack])
            else [c_lbrack] @ join [c_pipe] columns @ [c_rbrack]))"
  by pat_completeness auto
termination
  apply (relation "measure (\<lambda>x. case x of
    Inl (v, _) \<Rightarrow> 2 * size v + 1
  | Inr (arr, _) \<Rightarrow> 2 * size (JArray arr))")
  subgoal by simp
  subgoal by simp
  subgoal for arr dep pty col x using size_item[of x arr] by simp
  subgoal for entries dep pty col x using size_entry[of x entries] by simp
  subgoal for arr dep pty x xa xb using size_item[of xb arr] size_prop_get[of xb xa] by simp
  done


declare stringifyColumnar.simps [simp del]

text \<open>
  \<open>stringify(obj, options)\<close>: an option that is absent (\<open>None\<close>) takes its default,
  \<open>pretty = false\<close> and \<open>columnar = true\<close>.
\<close>

record options =
  pretty :: "bool option"
  columnar :: "bool option"

definition no_options :: options where
  "no_options = \<lparr>pretty = None, columnar = None\<rparr>"

definition stringify :: "jvalue \<Rightarrow> options \<Rightarrow> jstring" where
  "stringify obj opts =
     stringifyValue obj 0
       (case pretty opts of None \<Rightarrow> False | Some b \<Rightarrow> b)
       (case columnar opts of None \<Rightarrow> True | Some b \<Rightarrow> b)"

subsection \<open>The parser\<close>

text \<open>
  \<open>parseObject\<close> and \<open>parseArray\<close> throw; nothing catches the exception inside
  the parser, so the first one ends the whole call. A result is \<open>Inl\<close> of the
  error or \<open>Inr\<close> of the value.
\<close>

datatype parse_error = InvalidObjectSyntax | InvalidArraySyntax

type_synonym 'a result = "parse_error + 'a"

text \<open>\<open>xs.map(f)\<close> and a \<open>for ... of\<close> loop with a body that may throw.\<close>

fun mapE :: "('a \<Rightarrow> 'b result) \<Rightarrow> 'a list \<Rightarrow> 'b list result" where
  "mapE f [] = Inr []"
| "mapE f (x # xs) =
     (case f x of
        Inl err \<Rightarrow> Inl err
      | Inr y \<Rightarrow> (case mapE f xs of Inl err \<Rightarrow> Inl err | Inr ys \<Rightarrow> Inr (y # ys)))"

fun forE :: "'a list \<Rightarrow> 's \<Rightarrow> ('s \<Rightarrow> 'a \<Rightarrow> 's result) \<Rightarrow> 's result" where
  "forE [] s body = Inr s"
| "forE (x # xs) s body =
     (case body s x of Inl err \<Rightarrow> Inl err | Inr s1 \<Rightarrow> forE xs s1 body)"

lemma mapE_cong [fundef_cong]:
  "xs = ys \<Longrightarrow> (\<And>x. x \<in> set ys \<Longrightarrow> f x = g x) \<Longrightarrow> mapE f xs = mapE g ys"
  by (induction ys arbitrary: xs) (auto split: sum.splits)

lemma forE_cong [fundef_cong]:
  "xs = ys \<Longrightarrow> s = t \<Longrightarrow> (\<And>x a. x \<in> set ys \<Longrightarrow> f a x = g a x)
   \<Longrightarrow> forE xs s f = forE ys t g"
  by (induction ys arbitrary: xs s t) (auto split: sum.splits)

lemma length_trim: "length (trim s) \<le> length s"
proof -
  have "length (dropWhile is_space (rev (dropWhile is_space s))) \<le> length (rev (dropWhile is_space s))"
    by (rule length_dropWhile_le)
  also have "\<dots> \<le> length s"
    by (simp add: length_dropWhile_le)
  finally show ?thesis by (simp add: trim_def)
qed

lemma splitByPipe_loop_length:
  "x \<in> set (splitByPipe_loop prev input parts cur st)
   \<Longrightarrow> x \<in> set parts \<or> length x \<le> length cur + length input"
proof (induction input arbitrary: prev parts cur st)
  case Nil
  then show ?case by (auto split: if_splits)
next
  case (Cons c cs)
  then show ?case by (fastforce simp: Let_def split: if_splits)
qed

lemma splitByPipe_length: "x \<in> set (splitByPipe input) \<Longrightarrow> length x \<le> length input"
  using splitByPipe_loop_length[of x None input "[]" "[]" scan0] by (simp add: splitByPipe_def)

lemma splitArrayItems_loop_length:
  "x \<in> set (splitArrayItems_loop prev input parts cur st)
   \<Longrightarrow> x \<in> set parts \<or> length x \<le> length cur + length input"
proof (induction input arbitrary: prev parts cur st)
  case Nil
  then show ?case by (auto split: if_splits)
next
  case (Cons c cs)
  then show ?case by (fastforce simp: Let_def split: if_splits)
qed

lemma splitArrayItems_length: "x \<in> set (splitArrayItems input) \<Longrightarrow> length x \<le> length input"
  using splitArrayItems_loop_length[of x None input "[]" "[]" scan0]
  by (simp add: splitArrayItems_def)

text \<open>
  The columns of \<open>parseColumnarArray\<close> turned into rows: \<open>rowCount\<close> is the length
  of the first column, and \<open>columns[key][i]\<close> past the end of a shorter column is
  \<open>undefined\<close>.
\<close>

definition column_at :: "(jstring \<times> jvalue list) list \<Rightarrow> jstring \<Rightarrow> nat \<Rightarrow> jvalue" where
  "column_at columns key i =
     (case map_of columns key of
        None \<Rightarrow> JUndefined
      | Some vs \<Rightarrow> if i < length vs then vs ! i else JUndefined)"

definition rows_of :: "(jstring \<times> jvalue list) list \<Rightarrow> jvalue list" where
  "rows_of columns =
     (let keys = map fst columns
      in if keys = [] then []
         else (let rowCount = length (snd (hd columns))
               in map (\<lambda>i. JObject (foldl (\<lambda>row key. obj_set row key (column_at columns key i))
                                      [] keys))
                    [0 ..< rowCount]))"

function parseValue :: "jstring \<Rightarrow> jvalue result"
  and parseObject :: "jstring \<Rightarrow> jvalue result"
  and parseArray :: "jstring \<Rightarrow> jvalue result"
  and parsePipeDelimited :: "jstring \<Rightarrow> jvalue result"
  and parseColumnarArray :: "jstring \<Rightarrow> jvalue result" where
  "parseValue value0 =
     (let v = trim value0
      in if v = [] then Inr JNull
         else if v = str ''null'' then Inr JNull
         else if v = str ''true'' then Inr (JBoolean True)
         else if v = str ''false'' then Inr (JBoolean False)
         else if v = str ''undefined'' then Inr JUndefined
         else if v = str ''NaN'' then Inr (JNumber NaN)
         else if v = str ''Infinity'' then Inr (JNumber Infinity)
         else if v = str ''-Infinity'' then Inr (JNumber NegInfinity)
         else if (startsWith c_dquote v \<and> endsWith c_dquote v)
               \<or> (startsWith c_squote v \<and> endsWith c_squote v)
           then Inr (JString (unescapeString (slice_inner v)))
         else if startsWith c_lbrace v then parseObject v
         else if startsWith c_lbrack v then parseArray v
         else if numeric_re v then Inr (JNumber (parseFloat v))
         else if date_re v then Inr (JString v)
         else Inr (JString v))"
| "parseObject input0 =
     (let input = trim input0
      in if \<not> startsWith c_lbrace input \<or> \<not> endsWith c_rbrace input
           then Inl InvalidObjectSyntax
         else (let content = trim (slice_inner input)
               in if content = [] then Inr (JObject [])
                  else parsePipeDelimited content))"
| "parseArray input0 =
     (let input = trim input0
      in if \<not> startsWith c_lbrack input \<or> \<not> endsWith c_rbrack input
           then Inl InvalidArraySyntax
         else (let content = trim (slice_inner input)
               in if content = [] then Inr (JArray [])
                  else if includesChar c_pipe content \<and> includesChar c_colon content
                    then parseColumnarArray content
                  else (case mapE (\<lambda>item. parseValue (trim item)) (splitArrayItems content) of
                          Inl err \<Rightarrow> Inl err
                        | Inr vs \<Rightarrow> Inr (JArray (filter (\<lambda>v. v \<noteq> JUndefined) vs)))))"
| "parsePipeDelimited input =
     (case forE (splitByPipe input) [] (\<lambda>obj pair.
             if trim pair = [] then Inr obj
             else (case findTopLevelColon pair of
                     None \<Rightarrow> Inr obj
                   | Some colonIdx \<Rightarrow>
                       (let key = trim (take colonIdx pair);
                            val = trim (drop (colonIdx + 1) pair)
                        in case parseValue val of
                             Inl err \<Rightarrow> Inl err
                           | Inr v \<Rightarrow> Inr (obj_set obj key v)))) of
        Inl err \<Rightarrow> Inl err
      | Inr obj \<Rightarrow> Inr (JObject obj))"
| "parseColumnarArray input =
     (case forE (splitByPipe input) [] (\<lambda>columns pair.
             if trim pair = [] then Inr columns
             else (case findTopLevelColon pair of
                     None \<Rightarrow> Inr columns
                   | Some colonIdx \<Rightarrow>
                       (let key = trim (take colonIdx pair);
                            valuesStr = trim (drop (colonIdx + 1) pair)
                        in case mapE (\<lambda>v. parseValue (trim v)) (splitArrayItems valuesStr) of
                             Inl err \<Rightarrow> Inl err
                           | Inr vs \<Rightarrow> Inr (obj_set columns key vs)))) of
        Inl err \<Rightarrow> Inl err
      | Inr columns \<Rightarrow> Inr (JArray (rows_of columns)))"
  by pat_completeness auto
termination
proof (relation "measure (\<lambda>x. case x of
      Inl (Inl v) \<Rightarrow> 2 * length v + 1
    | Inl (Inr v) \<Rightarrow> 2 * length v
    | Inr (Inl v) \<Rightarrow> 2 * length v
    | Inr (Inr (Inl v)) \<Rightarrow> 2 * length v + 1
    | Inr (Inr (Inr v)) \<Rightarrow> 2 * length v + 1)", goal_cases)
  case 1
  show ?case by simp
next
  case (2 value0 x)
  then show ?case using length_trim[of value0] by simp
next
  case (3 value0 x)
  then show ?case using length_trim[of value0] by simp
next
  case (4 input0 x xa)
  then have "x \<noteq> []" by (auto simp: startsWith_def)
  then have "length (slice_inner x) < length x"
    by (cases x) (simp_all add: slice_inner_def)
  then show ?case
    using 4 length_trim[of input0] length_trim[of "slice_inner x"] by simp
next
  case (5 input0 x xa)
  then have "x \<noteq> []" by (auto simp: startsWith_def)
  then have "length (slice_inner x) < length x"
    by (cases x) (simp_all add: slice_inner_def)
  then show ?case
    using 5 length_trim[of input0] length_trim[of "slice_inner x"] by simp
next
  case (6 input0 x xa xb)
  then have "x \<noteq> []" by (auto simp: startsWith_def)
  then have "length (slice_inner x) < length x"
    by (cases x) (simp_all add: slice_inner_def)
  then show ?case
    using 6 length_trim[of input0] length_trim[of "slice_inner x"] length_trim[of xb]
      splitArrayItems_length[of xb xa]
    by simp
next
  case (7 input x a x2 xa xb)
  then have "x \<noteq> []" by (auto simp: trim_def)
  then have "length (drop (x2 + 1) x) < length x" by simp
  then show ?case
    using 7 length_trim[of "drop (x2 + 1) x"] splitByPipe_length[of x input] by simp
next
  case (8 input x a x2 xa xb xc)
  then have "x \<noteq> []" by (auto simp: trim_def)
  then have "length (drop (x2 + 1) x) < length x" by simp
  then show ?case
    using 8 length_trim[of "drop (x2 + 1) x"] splitByPipe_length[of x input]
      splitArrayItems_length[of xc xb] length_trim[of xc]
    by simp
qed

declare parseValue.simps [simp del] parseObject.simps [simp del] parseArray.simps [simp del]
  parsePipeDelimited.simps [simp del] parseColumnarArray.simps [simp del]

text \<open>The entry point \<open>parse\<close>.\<close>

definition parse :: "jstring \<Rightarrow> jvalue result" where
  "parse input0 =
     (let input = trim input0
      in if input = [] then Inr JNull
         else if startsWith c_lbrace input then parseObject input
         else if startsWith c_lbrack input then parseArray input
         else if includesChar c_pipe input \<and> includesChar c_colon input
           then parsePipeDelimited input
         else parseValue input)"


subsection \<open>Facts about trimming and the loops\<close>

lemma is_space_code [code]:
  "is_space c =
     (if c \<le> 160 then c = 9 \<or> c = 10 \<or> c = 11 \<or> c = 12 \<or> c = 13 \<or> c = 32 \<or> c = 160
      else c = 5760 \<or> (8192 \<le> c \<and> c \<le> 8202) \<or> c = 8232 \<or> c = 8233 \<or> c = 8239
        \<or> c = 8287 \<or> c = 12288 \<or> c = 65279)"
  by (auto simp: is_space_def)

lemma trim_Nil: "trim [] = []"
  by (simp add: trim_def)

lemma trim_all_space: "list_all is_space ws \<Longrightarrow> trim ws = []"
proof -
  assume "list_all is_space ws"
  then have d: "dropWhile is_space ws = []" by (simp add: list_all_iff)
  show ?thesis unfolding trim_def d by simp
qed

lemma trim_ends:
  assumes "trim s \<noteq> []"
  shows "\<not> is_space (hd (trim s))" and "\<not> is_space (last (trim s))"
proof -
  let ?u = "dropWhile is_space s"
  let ?w = "dropWhile is_space (rev ?u)"
  have t: "trim s = rev ?w" by (simp add: trim_def)
  with assms have w: "?w \<noteq> []" by simp
  then have "\<not> is_space (hd ?w)" by (rule hd_dropWhile)
  then show "\<not> is_space (last (trim s))" using w by (simp add: t last_rev)
  from w have u: "?u \<noteq> []" by (cases "?u") auto
  then have hu: "\<not> is_space (hd ?u)" by (rule hd_dropWhile)
  obtain pre where "rev ?u = pre @ ?w"
    by (metis takeWhile_dropWhile_id)
  then have "?u = rev ?w @ rev pre" by (metis rev_append rev_rev_ident)
  then have "hd ?u = hd (rev ?w)" using w by (metis hd_append2 rev_is_Nil_conv)
  then show "\<not> is_space (hd (trim s))" using hu by (simp add: t)
qed

lemma trim_id: "t \<noteq> [] \<Longrightarrow> \<not> is_space (hd t) \<Longrightarrow> \<not> is_space (last t) \<Longrightarrow> trim t = t"
proof -
  assume a: "t \<noteq> []" "\<not> is_space (hd t)" "\<not> is_space (last t)"
  then have "dropWhile is_space t = t" by (cases t) auto
  moreover have "dropWhile is_space (rev t) = rev t"
    using a by (cases "rev t") (auto simp: last_rev hd_rev)
  ultimately show ?thesis by (simp add: trim_def)
qed

lemma trim_trim: "trim (trim s) = trim s"
proof (cases "trim s = []")
  case True
  then show ?thesis by (simp add: trim_Nil)
next
  case False
  then show ?thesis using trim_ends[OF False] by (intro trim_id)
qed

lemma forE_skip:
  "list_all (\<lambda>x. body s x = Inr s) xs \<Longrightarrow> forE xs s body = Inr s"
  by (induction xs) auto

lemma columnar_no_colon:
  assumes "list_all (\<lambda>seg. findTopLevelColon seg = None) (splitByPipe content)"
  shows "parseColumnarArray content = Inr (JArray [])"
proof -
  have "forE (splitByPipe content) [] (\<lambda>columns pair.
             if trim pair = [] then Inr columns
             else (case findTopLevelColon pair of
                     None \<Rightarrow> Inr columns
                   | Some colonIdx \<Rightarrow>
                       (let key = trim (take colonIdx pair);
                            valuesStr = trim (drop (colonIdx + 1) pair)
                        in case mapE (\<lambda>v. parseValue (trim v)) (splitArrayItems valuesStr) of
                             Inl err \<Rightarrow> Inl err
                           | Inr vs \<Rightarrow> Inr (obj_set columns key vs)))) = Inr []"
    by (rule forE_skip) (use assms in \<open>simp add: list_all_iff\<close>)
  then show ?thesis by (simp add: parseColumnarArray.simps rows_of_def)
qed

text \<open>
  Claim C10. An array text whose inner content holds both \<open>|\<close> and \<open>:\<close> is read
  as columnar; when no segment of the top-level pipe split has a top-level colon, every
  segment is skipped, no column remains, and \<open>parse\<close> returns the empty Array
  without an error. The row-form text \<open>[{a:1|b:2}]\<close> is such an input.
\<close>

theorem array_without_top_level_colon_parses_empty:
  assumes "startsWith c_lbrack (trim text)" and "endsWith c_rbrack (trim text)"
    and "includesChar c_pipe (trim (slice_inner (trim text)))"
    and "includesChar c_colon (trim (slice_inner (trim text)))"
    and "list_all (\<lambda>seg. findTopLevelColon seg = None)
           (splitByPipe (trim (slice_inner (trim text))))"
  shows "parse text = Inr (JArray [])"
proof -
  let ?input = "trim text"
  let ?content = "trim (slice_inner ?input)"
  from assms(1) have ne: "?input \<noteq> []" and nb: "\<not> startsWith c_lbrace ?input"
    by (auto simp: startsWith_def split: list.splits)
  from assms(3) have cne: "?content \<noteq> []" by (auto simp: includesChar_def)
  have "parseArray ?input = parseColumnarArray ?content"
    using assms(1-4) cne by (simp add: parseArray.simps trim_trim)
  then show ?thesis
    using ne nb assms(1) columnar_no_colon[OF assms(5)] by (simp add: parse_def)
qed

theorem array_without_top_level_colon_witness:
  "startsWith c_lbrack (trim (str ''[{a:1|b:2}]''))
   \<and> endsWith c_rbrack (trim (str ''[{a:1|b:2}]''))
   \<and> includesChar c_pipe (trim (slice_inner (trim (str ''[{a:1|b:2}]''))))
   \<and> includesChar c_colon (trim (slice_inner (trim (str ''[{a:1|b:2}]''))))
   \<and> splitByPipe (trim (slice_inner (trim (str ''[{a:1|b:2}]'')))) = [str ''{a:1|b:2}'']
   \<and> findTopLevelColon (str ''{a:1|b:2}'') = None
   \<and> parse (str ''[{a:1|b:2}]'') = Inr (JArray [])"
proof -
  let ?text = "str ''[{a:1|b:2}]''"
  have h1: "startsWith c_lbrack (trim ?text)" by code_simp
  have h2: "endsWith c_rbrack (trim ?text)" by code_simp
  have h3: "includesChar c_pipe (trim (slice_inner (trim ?text)))" by code_simp
  have h4: "includesChar c_colon (trim (slice_inner (trim ?text)))" by code_simp
  have h5: "list_all (\<lambda>seg. findTopLevelColon seg = None)
              (splitByPipe (trim (slice_inner (trim ?text))))" by code_simp
  have e1: "splitByPipe (trim (slice_inner (trim ?text))) = [str ''{a:1|b:2}'']" by code_simp
  have e2: "findTopLevelColon (str ''{a:1|b:2}'') = None" by code_simp
  from array_without_top_level_colon_parses_empty[OF h1 h2 h3 h4 h5] h1 h2 h3 h4 e1 e2
  show ?thesis by blast
qed

text \<open>
  Claim C9. The empty String needs no quoting and is serialized as the empty text;
  \<open>parse\<close> of an empty or white-space-only text is Null; so parsing the
  serialization of the empty String gives Null and not the empty String.
\<close>

theorem empty_string_parses_to_null:
  assumes "list_all is_space ws"
  shows "\<not> needsQuoting [] \<and> stringify (JString []) opts = []
    \<and> parse ws = Inr JNull
    \<and> parse (stringify (JString []) opts) = Inr JNull
    \<and> parse (stringify (JString []) opts) \<noteq> Inr (JString [])"
proof -
  have nq: "\<not> needsQuoting []" by (simp add: needsQuoting_def includesChar_def)
  then have s: "stringify (JString []) opts = []" by (simp add: stringify_def)
  have "parse ws = Inr JNull" using trim_all_space[OF assms] by (simp add: parse_def)
  moreover have "parse [] = Inr JNull" by (simp add: parse_def trim_Nil)
  ultimately show ?thesis using nq s by simp
qed

theorem empty_string_parses_to_null_witness:
  "list_all is_space [c_space, c_tab, c_nl] \<and> \<not> needsQuoting []
    \<and> stringify (JString []) no_options = []
    \<and> parse [c_space, c_tab, c_nl] = Inr JNull
    \<and> parse (stringify (JString []) no_options) = Inr JNull
    \<and> parse (stringify (JString []) no_options) \<noteq> Inr (JString [])"
proof -
  have h: "list_all is_space [c_space, c_tab, c_nl]" by (simp add: is_space_def)
  from empty_string_parses_to_null[OF h, of no_options] h show ?thesis by blast
qed

lemma replace1_single: "replace1 a [b] s = map (\<lambda>c. if c = a then b else c) s"
  by (induction s) (auto simp: replace1_def)

text \<open>
  Claim C7. An array rendered in standard form (not empty, and not columnar) is the
  bracketed comma-joined text of its elements in which every \<open>|\<close> has become
  \<open>,\<close>, also inside quoted string literals, so the output holds no \<open>|\<close>.
\<close>

theorem standard_array_pipes_replaced:
  assumes "arr \<noteq> []" and "\<not> (col \<and> isArrayOfObjects arr)"
  shows "stringifyValue (JArray arr) dep pty col =
           [c_lbrack] @ map (\<lambda>c. if c = c_pipe then c_comma else c)
              (join [c_comma] (map (\<lambda>item. stringifyValue item (dep + 1) pty col) arr))
           @ [c_rbrack]
         \<and> \<not> includesChar c_pipe (stringifyValue (JArray arr) dep pty col)"
  using assms by (auto simp: replace1_single includesChar_def)

theorem standard_array_pipes_replaced_witness:
  "[JObject [(str ''a'', JNull), (str ''b'', JNull)], JString (str ''x|y'')] \<noteq> []
   \<and> \<not> isArrayOfObjects [JObject [(str ''a'', JNull), (str ''b'', JNull)], JString (str ''x|y'')]
   \<and> stringifyValue (JString (str ''x|y'')) 1 False True = [c_dquote] @ str ''x|y'' @ [c_dquote]
   \<and> stringifyValue (JObject [(str ''a'', JNull), (str ''b'', JNull)]) 1 False True
       = str ''{a:null|b:null}''
   \<and> stringifyValue
        (JArray [JObject [(str ''a'', JNull), (str ''b'', JNull)], JString (str ''x|y'')])
        0 False True
       = str ''[{a:null,b:null},'' @ [c_dquote] @ str ''x,y'' @ [c_dquote] @ str '']''
   \<and> \<not> includesChar c_pipe (stringifyValue
        (JArray [JObject [(str ''a'', JNull), (str ''b'', JNull)], JString (str ''x|y'')])
        0 False True)"
proof -
  let ?arr = "[JObject [(str ''a'', JNull), (str ''b'', JNull)], JString (str ''x|y'')]"
  have h1: "?arr \<noteq> []" by simp
  have h2: "\<not> (True \<and> isArrayOfObjects ?arr)" by code_simp
  have e1: "stringifyValue (JString (str ''x|y'')) 1 False True = [c_dquote] @ str ''x|y'' @ [c_dquote]"
    by code_simp
  have e2: "stringifyValue (JObject [(str ''a'', JNull), (str ''b'', JNull)]) 1 False True
       = str ''{a:null|b:null}''"
    by code_simp
  have e3: "stringifyValue (JArray ?arr) 0 False True
       = str ''[{a:null,b:null},'' @ [c_dquote] @ str ''x,y'' @ [c_dquote] @ str '']''"
    by code_simp
  from standard_array_pipes_replaced[OF h1 h2, of 0 False] h1 h2 e1 e2 e3
  show ?thesis by blast
qed

text \<open>
  Claim C8. Parsing \<open>[id:1,2,3|name:Alice,Bob,Charlie]\<close> gives the three rows in
  order, each with the keys \<open>id\<close> and \<open>name\<close> in that order, the ids as Numbers
  and the names as Strings.
\<close>

theorem columnar_transpose_example:
  "parse (str ''[id:1,2,3|name:Alice,Bob,Charlie]'') = Inr (JArray [
     JObject [(str ''id'', JNumber (Finite False 1 0)), (str ''name'', JString (str ''Alice''))],
     JObject [(str ''id'', JNumber (Finite False 2 0)), (str ''name'', JString (str ''Bob''))],
     JObject [(str ''id'', JNumber (Finite False 3 0)), (str ''name'', JString (str ''Charlie''))]])"
  by code_simp

text \<open>
  Claim C5 at the NUL character. \<open>escapeString\<close> writes NUL as \<open>\u0000\<close>;
  \<open>unescapeString\<close> turns that into NUL again and then, taking it for its own
  sentinel, into a backslash.
\<close>

theorem escape_unescape_nul:
  "escapeString [0] = [c_bslash] @ str ''u0000''
   \<and> unescapeString (escapeString [0]) = [c_bslash]
   \<and> unescapeString (escapeString [0]) \<noteq> [0]"
  by code_simp

text \<open>
  Claim C6 at a quote that follows an escaped backslash. The serializer closes the
  String \<open>a b\\<close> with \<open>\\"\<close>; the splitter looks at one preceding code unit
  only, does not take that quote as the end of the string, and so does not split at
  the \<open>|\<close> after it.
\<close>

theorem quote_after_escaped_backslash:
  "stringify (JObject [(str ''x'', JString (str ''a b'' @ [c_bslash])),
                      (str ''y'', JBoolean True)]) no_options
     = str ''{x:'' @ [c_dquote] @ str ''a b'' @ [c_bslash, c_bslash, c_dquote] @ str ''|y:true}''
   \<and> splitByPipe (str ''x:'' @ [c_dquote] @ str ''a b'' @ [c_bslash, c_bslash, c_dquote]
                    @ str ''|y:true'')
     = [str ''x:'' @ [c_dquote] @ str ''a b'' @ [c_bslash, c_bslash, c_dquote] @ str ''|y:true'']
   \<and> parse (stringify (JObject [(str ''x'', JString (str ''a b'' @ [c_bslash])),
                      (str ''y'', JBoolean True)]) no_options)
     = Inr (JObject [(str ''x'',
          JString ([c_dquote] @ str ''a b'' @ [c_bslash, c_bslash, c_dquote] @ str ''|y:true''))])"
  by code_simp


subsection \<open>Errors\<close>

text \<open>
  The spans that the parser reads as values. \<open>malformed\<close> is the test of
  \<open>parseObject\<close> and \<open>parseArray\<close> on a trimmed text; \<open>nested_values\<close> are
  the texts that a well-bracketed value hands to \<open>parseValue\<close>: the value sides of
  the pairs of an object, the cells of the columns of a columnar array, the items of a
  standard array. \<open>ill_nested\<close> holds when the text or a value nested in it, at any
  depth, is malformed.
\<close>

definition malformed :: "jstring \<Rightarrow> bool" where
  "malformed v =
     ((startsWith c_lbrace v \<and> \<not> endsWith c_rbrace v)
      \<or> (startsWith c_lbrack v \<and> \<not> endsWith c_rbrack v))"

definition pipe_values :: "jstring \<Rightarrow> jstring list" where
  "pipe_values input =
     concat (map (\<lambda>pair.
        if trim pair = [] then []
        else (case findTopLevelColon pair of
                None \<Rightarrow> []
              | Some colonIdx \<Rightarrow> [trim (drop (colonIdx + 1) pair)]))
       (splitByPipe input))"

definition column_values :: "jstring \<Rightarrow> jstring list" where
  "column_values input =
     concat (map (\<lambda>pair.
        if trim pair = [] then []
        else (case findTopLevelColon pair of
                None \<Rightarrow> []
              | Some colonIdx \<Rightarrow>
                  map trim (splitArrayItems (trim (drop (colonIdx + 1) pair)))))
       (splitByPipe input))"

definition nested_values :: "jstring \<Rightarrow> jstring list" where
  "nested_values v =
     (if startsWith c_lbrace v \<and> endsWith c_rbrace v then
        (let content = trim (slice_inner v)
         in if content = [] then [] else pipe_values content)
      else if startsWith c_lbrack v \<and> endsWith c_rbrack v then
        (let content = trim (slice_inner v)
         in if content = [] then []
            else if includesChar c_pipe content \<and> includesChar c_colon content
              then column_values content
            else map trim (splitArrayItems content))
      else [])"

lemma pipe_values_length: "w \<in> set (pipe_values input) \<Longrightarrow> length w < length input"
proof -
  assume "w \<in> set (pipe_values input)"
  then obtain pair i where p: "pair \<in> set (splitByPipe input)" "trim pair \<noteq> []"
    "findTopLevelColon pair = Some i" "w = trim (drop (i + 1) pair)"
    by (auto simp: pipe_values_def split: if_splits option.splits) metis
  from p(2) have "pair \<noteq> []" by (auto simp: trim_Nil)
  then have "length (drop (i + 1) pair) < length pair" by simp
  then show ?thesis
    using p(4) length_trim[of "drop (i + 1) pair"] splitByPipe_length[OF p(1)] by simp
qed

lemma column_values_length: "w \<in> set (column_values input) \<Longrightarrow> length w < length input"
proof -
  assume "w \<in> set (column_values input)"
  then obtain pair i x where p: "pair \<in> set (splitByPipe input)" "trim pair \<noteq> []"
    "findTopLevelColon pair = Some i" "x \<in> set (splitArrayItems (trim (drop (i + 1) pair)))"
    "w = trim x"
    by (auto simp: column_values_def split: if_splits option.splits) metis
  from p(2) have "pair \<noteq> []" by (auto simp: trim_Nil)
  then have "length (drop (i + 1) pair) < length pair" by simp
  then show ?thesis
    using p(5) length_trim[of "drop (i + 1) pair"] length_trim[of x]
      splitByPipe_length[OF p(1)] splitArrayItems_length[OF p(4)] by simp
qed

lemma slice_inner_length: "v \<noteq> [] \<Longrightarrow> length (slice_inner v) < length v"
  by (cases v) (simp_all add: slice_inner_def)

lemma nested_values_length: "w \<in> set (nested_values v) \<Longrightarrow> length w < length v"
proof -
  assume a: "w \<in> set (nested_values v)"
  then have ne: "v \<noteq> []" by (auto simp: nested_values_def startsWith_def)
  let ?c = "trim (slice_inner v)"
  have c: "length ?c < length v"
    using slice_inner_length[OF ne] length_trim[of "slice_inner v"] by simp
  from a have "w \<in> set (pipe_values ?c) \<or> w \<in> set (column_values ?c)
      \<or> w \<in> trim ` set (splitArrayItems ?c)"
    by (auto simp: nested_values_def Let_def split: if_splits)
  then show ?thesis
  proof (elim disjE)
    assume "w \<in> trim ` set (splitArrayItems ?c)"
    then obtain x where "x \<in> set (splitArrayItems ?c)" "w = trim x" by auto
    then show ?thesis using c splitArrayItems_length[of x ?c] length_trim[of x] by simp
  qed (use c pipe_values_length column_values_length in fastforce)+
qed

function ill_nested :: "jstring \<Rightarrow> bool" where
  "ill_nested value0 =
     (let v = trim value0 in malformed v \<or> list_ex ill_nested (nested_values v))"
  by pat_completeness auto
termination
proof (relation "measure length", goal_cases)
  case 1
  show ?case by simp
next
  case (2 value0 v w)
  then show ?case using nested_values_length[of w v] length_trim[of value0] by simp
qed

declare ill_nested.simps [simp del]

definition parse_fails :: "jstring \<Rightarrow> bool" where
  "parse_fails text =
     (let input = trim text
      in if input = [] then False
         else if startsWith c_lbrace input \<or> startsWith c_lbrack input then ill_nested input
         else if includesChar c_pipe input \<and> includesChar c_colon input
           then list_ex ill_nested (pipe_values input)
         else False)"

lemma isl_forE:
  assumes "\<And>s x. x \<in> set xs \<Longrightarrow> isl (body s x) = bad x"
  shows "isl (forE xs s body) = list_ex bad xs"
  using assms
proof (induction xs arbitrary: s)
  case Nil
  then show ?case by simp
next
  case (Cons x xs)
  have "isl (body s x) = bad x" using Cons.prems by simp
  moreover have "isl (forE xs s1 body) = list_ex bad xs" for s1
    using Cons.IH Cons.prems by simp
  ultimately show ?case by (cases "body s x") auto
qed

lemma isl_mapE: "isl (mapE f xs) = list_ex (\<lambda>x. isl (f x)) xs"
  by (induction xs) (auto split: sum.splits)

lemma list_ex_concat_map: "list_ex P (concat (map f xs)) = list_ex (\<lambda>x. list_ex P (f x)) xs"
  by (induction xs) auto

lemma isl_case_sum: "isl (case r of Inl err \<Rightarrow> Inl err | Inr x \<Rightarrow> Inr (g x)) = isl r"
  by (cases r) auto


lemma pipe_isl:
  assumes "\<And>w. length w < length c \<Longrightarrow> isl (parseValue w) = ill_nested w"
  shows "isl (parsePipeDelimited c) = list_ex ill_nested (pipe_values c)"
proof -
  let ?bad = "\<lambda>pair. list_ex ill_nested
        (if trim pair = [] then []
         else (case findTopLevelColon pair of
                 None \<Rightarrow> []
               | Some colonIdx \<Rightarrow> [trim (drop (colonIdx + 1) pair)]))"
  have "isl (forE (splitByPipe c) [] (\<lambda>obj pair.
             if trim pair = [] then Inr obj
             else (case findTopLevelColon pair of
                     None \<Rightarrow> Inr obj
                   | Some colonIdx \<Rightarrow>
                       (let key = trim (take colonIdx pair);
                            val = trim (drop (colonIdx + 1) pair)
                        in case parseValue val of
                             Inl err \<Rightarrow> Inl err
                           | Inr v \<Rightarrow> Inr (obj_set obj key v)))))
        = list_ex ?bad (splitByPipe c)"
  proof (rule isl_forE)
    fix s :: "(jstring \<times> jvalue) list" and pair
    assume mem: "pair \<in> set (splitByPipe c)"
    show "isl (if trim pair = [] then Inr s
             else (case findTopLevelColon pair of
                     None \<Rightarrow> Inr s
                   | Some colonIdx \<Rightarrow>
                       (let key = trim (take colonIdx pair);
                            val = trim (drop (colonIdx + 1) pair)
                        in case parseValue val of
                             Inl err \<Rightarrow> Inl err
                           | Inr v \<Rightarrow> Inr (obj_set s key v)))) = ?bad pair"
    proof (cases "trim pair = []")
      case True
      then show ?thesis by simp
    next
      case False
      show ?thesis
      proof (cases "findTopLevelColon pair")
        case None
        then show ?thesis using False by simp
      next
        case (Some i)
        let ?val = "trim (drop (i + 1) pair)"
        have "?val \<in> set (pipe_values c)"
          using mem False Some by (force simp: pipe_values_def)
        then have "isl (parseValue ?val) = ill_nested ?val"
          using assms pipe_values_length by blast
        then show ?thesis using False Some by (simp add: isl_case_sum)
      qed
    qed
  qed
  then show ?thesis
    by (simp add: parsePipeDelimited.simps isl_case_sum pipe_values_def list_ex_concat_map)
qed

lemma columnar_isl:
  assumes "\<And>w. length w < length c \<Longrightarrow> isl (parseValue w) = ill_nested w"
  shows "isl (parseColumnarArray c) = list_ex ill_nested (column_values c)"
proof -
  let ?bad = "\<lambda>pair. list_ex ill_nested
        (if trim pair = [] then []
         else (case findTopLevelColon pair of
                 None \<Rightarrow> []
               | Some colonIdx \<Rightarrow>
                   map trim (splitArrayItems (trim (drop (colonIdx + 1) pair)))))"
  have "isl (forE (splitByPipe c) [] (\<lambda>columns pair.
             if trim pair = [] then Inr columns
             else (case findTopLevelColon pair of
                     None \<Rightarrow> Inr columns
                   | Some colonIdx \<Rightarrow>
                       (let key = trim (take colonIdx pair);
                            valuesStr = trim (drop (colonIdx + 1) pair)
                        in case mapE (\<lambda>v. parseValue (trim v)) (splitArrayItems valuesStr) of
                             Inl err \<Rightarrow> Inl err
                           | Inr vs \<Rightarrow> Inr (obj_set columns key vs)))))
        = list_ex ?bad (splitByPipe c)"
  proof (rule isl_forE)
    fix s :: "(jstring \<times> jvalue list) list" and pair
    assume mem: "pair \<in> set (splitByPipe c)"
    show "isl (if trim pair = [] then Inr s
             else (case findTopLevelColon pair of
                     None \<Rightarrow> Inr s
                   | Some colonIdx \<Rightarrow>
                       (let key = trim (take colonIdx pair);
                            valuesStr = trim (drop (colonIdx + 1) pair)
                        in case mapE (\<lambda>v. parseValue (trim v)) (splitArrayItems valuesStr) of
                             Inl err \<Rightarrow> Inl err
                           | Inr vs \<Rightarrow> Inr (obj_set s key vs)))) = ?bad pair"
    proof (cases "trim pair = []")
      case True
      then show ?thesis by simp
    next
      case False
      show ?thesis
      proof (cases "findTopLevelColon pair")
        case None
        then show ?thesis using False by simp
      next
        case (Some i)
        let ?items = "splitArrayItems (trim (drop (i + 1) pair))"
        have "isl (parseValue (trim x)) = ill_nested (trim x)" if "x \<in> set ?items" for x
        proof -
          have "trim x \<in> set (column_values c)"
            using mem False Some that by (force simp: column_values_def)
          then show ?thesis using assms column_values_length by blast
        qed
        then have "isl (mapE (\<lambda>v. parseValue (trim v)) ?items) = list_ex ill_nested (map trim ?items)"
          by (simp add: isl_mapE list_ex_iff)
        then show ?thesis using False Some by (simp add: isl_case_sum)
      qed
    qed
  qed
  then show ?thesis
    by (simp add: parseColumnarArray.simps isl_case_sum column_values_def list_ex_concat_map)
qed

lemma object_isl:
  assumes "\<And>w. length w < length t \<Longrightarrow> isl (parseValue w) = ill_nested w"
    and "startsWith c_lbrace t" and "trim t = t"
  shows "isl (parseObject t) = (malformed t \<or> list_ex ill_nested (nested_values t))"
proof -
  from assms(2) have ne: "t \<noteq> []" and nb: "\<not> startsWith c_lbrack t"
    by (auto simp: startsWith_def split: list.splits)
  let ?c = "trim (slice_inner t)"
  have len: "length ?c < length t"
    using slice_inner_length[OF ne] length_trim[of "slice_inner t"] by simp
  have "isl (parsePipeDelimited ?c) = list_ex ill_nested (pipe_values ?c)"
    by (rule pipe_isl) (use assms(1) len in simp)
  then show ?thesis
    using assms(2,3) nb
    by (simp add: parseObject.simps malformed_def nested_values_def Let_def)
qed

lemma array_isl:
  assumes "\<And>w. length w < length t \<Longrightarrow> isl (parseValue w) = ill_nested w"
    and "startsWith c_lbrack t" and "trim t = t"
  shows "isl (parseArray t) = (malformed t \<or> list_ex ill_nested (nested_values t))"
proof -
  from assms(2) have ne: "t \<noteq> []" and nb: "\<not> startsWith c_lbrace t"
    by (auto simp: startsWith_def split: list.splits)
  let ?c = "trim (slice_inner t)"
  have len: "length ?c < length t"
    using slice_inner_length[OF ne] length_trim[of "slice_inner t"] by simp
  have col: "isl (parseColumnarArray ?c) = list_ex ill_nested (column_values ?c)"
    by (rule columnar_isl) (use assms(1) len in simp)
  have "isl (parseValue (trim x)) = ill_nested (trim x)" if "x \<in> set (splitArrayItems ?c)" for x
    using assms(1)[of "trim x"] len splitArrayItems_length[OF that] length_trim[of x] by simp
  then have std: "isl (mapE (\<lambda>item. parseValue (trim item)) (splitArrayItems ?c))
      = list_ex ill_nested (map trim (splitArrayItems ?c))"
    by (simp add: isl_mapE list_ex_iff)
  show ?thesis
    using assms(2,3) nb col std
    by (simp add: parseArray.simps malformed_def nested_values_def Let_def isl_case_sum)
qed

lemma not_bracket_not_ill:
  assumes "\<not> startsWith c_lbrace t" and "\<not> startsWith c_lbrack t"
  shows "\<not> malformed t" and "nested_values t = []"
  using assms by (simp_all add: malformed_def nested_values_def)

lemma ill_nested_unfold:
  "ill_nested v = (malformed (trim v) \<or> list_ex ill_nested (nested_values (trim v)))"
  by (simp add: ill_nested.simps[of v] Let_def)

lemma parseValue_isl: "isl (parseValue v) = ill_nested v"
proof (induction "length v" arbitrary: v rule: less_induct)
  case less
  let ?t = "trim v"
  have IH: "isl (parseValue w) = ill_nested w" if "length w < length ?t" for w
    using less[of w] that length_trim[of v] by simp
  have tt: "trim ?t = ?t" by (rule trim_trim)
  have ill: "ill_nested v = (malformed ?t \<or> list_ex ill_nested (nested_values ?t))"
    by (rule ill_nested_unfold)
  show ?case
  proof (cases "startsWith c_lbrace ?t")
    case True
    then have "parseValue v = parseObject ?t"
      by (auto simp: parseValue.simps[of v] Let_def startsWith_def str_def split: list.splits)
    then show ?thesis using object_isl[OF IH True tt] ill by simp
  next
    case nb: False
    show ?thesis
    proof (cases "startsWith c_lbrack ?t")
      case True
      then have "parseValue v = parseArray ?t"
        by (auto simp: parseValue.simps[of v] Let_def startsWith_def str_def split: list.splits)
      then show ?thesis using array_isl[OF IH True tt] ill by simp
    next
      case False
      then have "\<not> isl (parseValue v)"
        using nb by (simp add: parseValue.simps[of v] Let_def)
      then show ?thesis using ill not_bracket_not_ill[OF nb False] by simp
    qed
  qed
qed

lemma parse_isl_parse_fails:
  "(\<exists>err. parse text = Inl err) = parse_fails text
   \<and> (\<exists>v. parse text = Inr v) = (\<not> parse_fails text)"
proof -
  let ?t = "trim text"
  have tt: "trim ?t = ?t" by (rule trim_trim)
  have "isl (parse text) = parse_fails text"
  proof (cases "?t = []")
    case True
    then show ?thesis by (simp add: parse_def parse_fails_def Let_def)
  next
    case ne: False
    show ?thesis
    proof (cases "startsWith c_lbrace ?t")
      case True
      then show ?thesis
        using ne object_isl[OF parseValue_isl True tt] ill_nested_unfold[of ?t] tt
        by (simp add: parse_def parse_fails_def Let_def)
    next
      case nb: False
      show ?thesis
      proof (cases "startsWith c_lbrack ?t")
        case True
        then show ?thesis
          using ne nb array_isl[OF parseValue_isl True tt] ill_nested_unfold[of ?t] tt
          by (simp add: parse_def parse_fails_def Let_def)
      next
        case False
        have "\<not> ill_nested ?t"
          using not_bracket_not_ill[OF nb False] ill_nested_unfold[of ?t] tt by simp
        then show ?thesis
          using ne nb False pipe_isl[OF parseValue_isl, of ?t] parseValue_isl[of ?t]
          by (simp add: parse_def parse_fails_def Let_def)
      qed
    qed
  qed
  then show ?thesis by (cases "parse text") auto
qed


lemma set_trim: "set (trim s) \<subseteq> set s"
proof -
  have "set (dropWhile is_space (rev (dropWhile is_space s))) \<subseteq> set (rev (dropWhile is_space s))"
    by (meson set_dropWhileD subsetI)
  also have "\<dots> \<subseteq> set s" by (auto dest: set_dropWhileD)
  finally show ?thesis by (simp add: trim_def)
qed

lemma startsWith_mem: "startsWith c s \<Longrightarrow> c \<in> set s"
  by (cases s) (auto simp: startsWith_def)

lemma splitByPipe_loop_set:
  "x \<in> set (splitByPipe_loop prev input parts cur st)
   \<Longrightarrow> x \<in> set parts \<or> set x \<subseteq> set cur \<union> set input"
proof (induction input arbitrary: prev parts cur st)
  case Nil
  then show ?case by (auto split: if_splits)
next
  case (Cons c cs)
  let ?st = "track prev c st"
  let ?hit = "\<not> inString ?st \<and> c = c_pipe \<and> depth ?st = 0"
  have eq: "splitByPipe_loop prev (c # cs) parts cur st =
      (if ?hit then splitByPipe_loop (Some c) cs (parts @ [cur]) [] ?st
       else splitByPipe_loop (Some c) cs parts (cur @ [c]) ?st)"
    by (simp only: splitByPipe_loop.simps Let_def)
  show ?case
  proof (cases ?hit)
    case True
    have "splitByPipe_loop prev (c # cs) parts cur st
        = splitByPipe_loop (Some c) cs (parts @ [cur]) [] ?st"
      by (subst eq) (rule if_P[OF True])
    then have "x \<in> set (splitByPipe_loop (Some c) cs (parts @ [cur]) [] ?st)"
      using Cons.prems by simp
    from Cons.IH[OF this] show ?thesis by auto
  next
    case False
    have "splitByPipe_loop prev (c # cs) parts cur st
        = splitByPipe_loop (Some c) cs parts (cur @ [c]) ?st"
      by (subst eq) (rule if_not_P[OF False])
    then have "x \<in> set (splitByPipe_loop (Some c) cs parts (cur @ [c]) ?st)"
      using Cons.prems by simp
    from Cons.IH[OF this] show ?thesis by auto
  qed
qed

lemma splitByPipe_set: "x \<in> set (splitByPipe input) \<Longrightarrow> set x \<subseteq> set input"
  using splitByPipe_loop_set[of x None input "[]" "[]" scan0] by (simp add: splitByPipe_def)

lemma pipe_values_set: "w \<in> set (pipe_values input) \<Longrightarrow> set w \<subseteq> set input"
proof -
  assume "w \<in> set (pipe_values input)"
  then obtain pair i where p: "pair \<in> set (splitByPipe input)" "w = trim (drop (i + 1) pair)"
    by (auto simp: pipe_values_def split: if_splits option.splits)
  have "set w \<subseteq> set (drop (i + 1) pair)" using p(2) set_trim by simp
  also have "\<dots> \<subseteq> set pair" by (rule set_drop_subset)
  also have "\<dots> \<subseteq> set input" by (rule splitByPipe_set[OF p(1)])
  finally show ?thesis .
qed

lemma no_bracket_not_ill:
  assumes "c_lbrace \<notin> set w" and "c_lbrack \<notin> set w"
  shows "\<not> ill_nested w"
proof -
  have "\<not> startsWith c_lbrace (trim w)" "\<not> startsWith c_lbrack (trim w)"
    using assms startsWith_mem set_trim by blast+
  then show ?thesis using not_bracket_not_ill ill_nested_unfold[of w] by simp
qed

text \<open>
  The wording of the error in the description of the format: bracket nesting is
  malformed when an opener has no matching closer or the closer is of the other type.
  \<open>spec_brackets_paired\<close> checks that with a stack of the closers that are due; it
  is meant for texts without quotes.
\<close>

fun spec_pairing :: "jstring \<Rightarrow> jstring \<Rightarrow> bool" where
  "spec_pairing [] due = (due = [])"
| "spec_pairing (c # cs) due =
     (if c = c_lbrace then spec_pairing cs (c_rbrace # due)
      else if c = c_lbrack then spec_pairing cs (c_rbrack # due)
      else if c = c_rbrace \<or> c = c_rbrack then
        (case due of [] \<Rightarrow> False | d # ds \<Rightarrow> d = c \<and> spec_pairing cs ds)
      else spec_pairing cs due)"

definition spec_brackets_paired :: "jstring \<Rightarrow> bool" where
  "spec_brackets_paired text = spec_pairing text []"

text \<open>
  Claim C3 as it is written fails on a bracket that is opened and never closed inside
  an array or an object whose own first and last characters pair up: the content of
  \<open>[{a:1|b:2]\<close> starts with \<open>{\<close> and does not end with \<open>}\<close>, but it holds
  \<open>|\<close> and \<open>:\<close>, is read as columnar, its one segment has no top-level colon,
  and \<open>parse\<close> returns the empty Array; the content of \<open>{[1,2}\<close> is a pair
  without a colon, which is skipped.
\<close>

theorem unclosed_bracket_parses:
  "\<not> spec_brackets_paired (str ''[{a:1|b:2]'')
   \<and> slice_inner (str ''[{a:1|b:2]'') = str ''{a:1|b:2''
   \<and> startsWith c_lbrace (str ''{a:1|b:2'') \<and> \<not> endsWith c_rbrace (str ''{a:1|b:2'')
   \<and> parse (str ''[{a:1|b:2]'') = Inr (JArray [])
   \<and> \<not> spec_brackets_paired (str ''{[1,2}'')
   \<and> slice_inner (str ''{[1,2}'') = str ''[1,2''
   \<and> startsWith c_lbrack (str ''[1,2'') \<and> \<not> endsWith c_rbrack (str ''[1,2'')
   \<and> parse (str ''{[1,2}'') = Inr (JObject [])
   \<and> \<not> spec_brackets_paired (str ''{a:1|{b:2}'')
   \<and> parse (str ''{a:1|{b:2}'') = Inr (JObject [(str ''a'', JNumber (Finite False 1 0))])"
  by code_simp

text \<open>
  Claim C3, amended. \<open>parse\<close> ends with one of the two bracket errors exactly when
  the trimmed text, or a value that the parser reaches in it (the value side of a pair
  with a top-level colon, a cell of a column of a columnar array, an item of a standard
  array, at any depth), starts with \<open>{\<close> without ending with \<open>}\<close> or starts
  with \<open>[\<close> without ending with \<open>]\<close>; on every other text it returns a value.
  In particular it fails, with the error of the opening bracket, whenever the trimmed
  text itself is malformed, and it returns a value for every text without \<open>{\<close> and
  \<open>[\<close>. \<open>parse\<close> is a total function, by the termination proof of the parser.
\<close>

theorem parse_fails_on_reached_malformed_value:
  "((\<exists>err. parse text = Inl err) = parse_fails text)
   \<and> ((\<exists>v. parse text = Inr v) = (\<not> parse_fails text))
   \<and> (malformed (trim text) \<longrightarrow>
        parse text = Inl (if startsWith c_lbrace (trim text) then InvalidObjectSyntax
                          else InvalidArraySyntax))
   \<and> (\<not> includesChar c_lbrace text \<and> \<not> includesChar c_lbrack text \<longrightarrow>
        (\<exists>v. parse text = Inr v))"
proof -
  let ?t = "trim text"
  have tt: "trim ?t = ?t" by (rule trim_trim)
  note main_iff = parse_isl_parse_fails[of "text"]
  have top: "parse text = Inl (if startsWith c_lbrace ?t then InvalidObjectSyntax
                          else InvalidArraySyntax)" if m: "malformed ?t"
  proof (cases "startsWith c_lbrace ?t")
    case True
    then have "?t \<noteq> []" by (auto simp: startsWith_def)
    moreover have "\<not> endsWith c_rbrace ?t"
      using m True by (auto simp: malformed_def startsWith_def split: list.splits)
    ultimately show ?thesis
      using True tt by (simp add: parse_def Let_def parseObject.simps[of ?t])
  next
    case False
    then have b: "startsWith c_lbrack ?t" "\<not> endsWith c_rbrack ?t"
      using m by (auto simp: malformed_def)
    then have "?t \<noteq> []" by (auto simp: startsWith_def)
    then show ?thesis
      using False b tt by (simp add: parse_def Let_def parseArray.simps[of ?t])
  qed
  have nobr: "\<not> parse_fails text"
    if nb: "\<not> includesChar c_lbrace text \<and> \<not> includesChar c_lbrack text"
  proof -
    have t: "c_lbrace \<notin> set ?t" "c_lbrack \<notin> set ?t"
      using nb set_trim[of "text"] by (auto simp: includesChar_def)
    then have sw: "\<not> startsWith c_lbrace ?t" "\<not> startsWith c_lbrack ?t"
      using startsWith_mem by blast+
    have "\<not> ill_nested w" if "w \<in> set (pipe_values ?t)" for w
      using pipe_values_set[OF that] t by (intro no_bracket_not_ill) auto
    then have "\<not> list_ex ill_nested (pipe_values ?t)" by (simp add: list_ex_iff)
    then show ?thesis using sw by (simp add: parse_fails_def Let_def)
  qed
  show ?thesis using main_iff top nobr by blast
qed

theorem parse_fails_on_reached_malformed_value_witness:
  "malformed (trim (str ''  {a:1''))
   \<and> parse (str ''  {a:1'') = Inl InvalidObjectSyntax
   \<and> malformed (trim (str ''[1,2] x''))
   \<and> parse (str ''[1,2] x'') = Inl InvalidArraySyntax
   \<and> \<not> includesChar c_lbrace (str ''a:1|b:x,y'') \<and> \<not> includesChar c_lbrack (str ''a:1|b:x,y'')
   \<and> parse (str ''a:1|b:x,y'')
       = Inr (JObject [(str ''a'', JNumber (Finite False 1 0)), (str ''b'', JString (str ''x,y''))])
   \<and> parse_fails (str ''[[1,2]'') \<and> parse (str ''[[1,2]'') = Inl InvalidArraySyntax
   \<and> \<not> parse_fails (str ''[[1,2],[3,4]]'')
   \<and> parse (str ''[[1,2],[3,4]]'')
       = Inr (JArray [JArray [JNumber (Finite False 1 0), JNumber (Finite False 2 0)],
                      JArray [JNumber (Finite False 3 0), JNumber (Finite False 4 0)]])
   \<and> parse_fails (str ''{a:[1,2}'') \<and> parse (str ''{a:[1,2}'') = Inl InvalidArraySyntax
   \<and> parse_fails (str ''[x,{a:1]'') \<and> parse (str ''[x,{a:1]'') = Inl InvalidObjectSyntax
   \<and> parse_fails (str ''[k:1,[2|j:3,4]'') \<and> parse (str ''[k:1,[2|j:3,4]'') = Inl InvalidArraySyntax
   \<and> parse_fails (str ''x:1|y:{z:[2}'') \<and> parse (str ''x:1|y:{z:[2}'') = Inl InvalidArraySyntax
   \<and> \<not> parse_fails (str ''{a:{b:[1,2]|c:3}|d:[{e:4}]}'')
   \<and> parse (str ''{a:{b:[1,2]|c:3}|d:[{e:4}]}'')
       = Inr (JObject [(str ''a'', JObject [(str ''b'', JArray [JNumber (Finite False 1 0),
                                                              JNumber (Finite False 2 0)]),
                                          (str ''c'', JNumber (Finite False 3 0))]),
                       (str ''d'', JArray [JObject [(str ''e'', JNumber (Finite False 4 0))]])])
   \<and> \<not> parse_fails (str ''a:{b'') \<and> parse (str ''a:{b'') = Inr (JString (str ''a:{b''))
   \<and> \<not> parse_fails (str ''[{a:1|b:2]'') \<and> \<not> parse_fails (str ''{[1,2}'')"
proof -
  have 1: "malformed (trim (str ''  {a:1''))" by code_simp
  have 2: "startsWith c_lbrace (trim (str ''  {a:1''))" by code_simp
  have 3: "malformed (trim (str ''[1,2] x''))" by code_simp
  have 4: "\<not> startsWith c_lbrace (trim (str ''[1,2] x''))" by code_simp
  have 5: "\<not> includesChar c_lbrace (str ''a:1|b:x,y'') \<and> \<not> includesChar c_lbrack (str ''a:1|b:x,y'')"
    by code_simp
  have 6: "parse (str ''a:1|b:x,y'')
       = Inr (JObject [(str ''a'', JNumber (Finite False 1 0)), (str ''b'', JString (str ''x,y''))])"
    by code_simp
  have 7: "parse_fails (str ''[[1,2]'')" by code_simp
  have 8: "parse (str ''[[1,2]'') = Inl InvalidArraySyntax" by code_simp
  have 9: "\<not> parse_fails (str ''[[1,2],[3,4]]'')" by code_simp
  have 10: "parse (str ''[[1,2],[3,4]]'')
       = Inr (JArray [JArray [JNumber (Finite False 1 0), JNumber (Finite False 2 0)],
                      JArray [JNumber (Finite False 3 0), JNumber (Finite False 4 0)]])"
    by code_simp
  have 11: "parse_fails (str ''{a:[1,2}'')" by code_simp
  have 12: "parse (str ''{a:[1,2}'') = Inl InvalidArraySyntax" by code_simp
  have 13: "parse_fails (str ''[x,{a:1]'')" by code_simp
  have 14: "parse (str ''[x,{a:1]'') = Inl InvalidObjectSyntax" by code_simp
  have 15: "parse_fails (str ''[k:1,[2|j:3,4]'')" by code_simp
  have 16: "parse (str ''[k:1,[2|j:3,4]'') = Inl InvalidArraySyntax" by code_simp
  have 17: "parse_fails (str ''x:1|y:{z:[2}'')" by code_simp
  have 18: "parse (str ''x:1|y:{z:[2}'') = Inl InvalidArraySyntax" by code_simp
  have 19: "\<not> parse_fails (str ''{a:{b:[1,2]|c:3}|d:[{e:4}]}'')" by code_simp
  have 20: "parse (str ''{a:{b:[1,2]|c:3}|d:[{e:4}]}'')
       = Inr (JObject [(str ''a'', JObject [(str ''b'', JArray [JNumber (Finite False 1 0),
                                                              JNumber (Finite False 2 0)]),
                                          (str ''c'', JNumber (Finite False 3 0))]),
                       (str ''d'', JArray [JObject [(str ''e'', JNumber (Finite False 4 0))]])])"
    by code_simp
  have 21: "\<not> parse_fails (str ''a:{b'')" by code_simp
  have 22: "parse (str ''a:{b'') = Inr (JString (str ''a:{b''))" by code_simp
  have 23: "\<not> parse_fails (str ''[{a:1|b:2]'')" by code_simp
  have 24: "\<not> parse_fails (str ''{[1,2}'')" by code_simp
  from parse_fails_on_reached_malformed_value[of "str ''  {a:1''"] 1 2
  have a: "parse (str ''  {a:1'') = Inl InvalidObjectSyntax" by simp
  from parse_fails_on_reached_malformed_value[of "str ''[1,2] x''"] 3 4
  have b: "parse (str ''[1,2] x'') = Inl InvalidArraySyntax" by simp
  from 1 3 5 6 7 8 9 10 11 12 13 14 15 16 17 18 19 20 21 22 23 24 a b
  show ?thesis by blast
qed


subsection \<open>Decimal digits\<close>

lemma digits_of_digit: "list_all is_digit (digits_of n)"
proof (induction n rule: digits_of.induct)
  case (1 n)
  show ?case
  proof (cases "n < 10")
    case True
    then show ?thesis by (simp add: digits_of.simps[of n] is_digit_def)
  next
    case False
    have "n mod 10 < 10" by simp
    then have "is_digit (48 + n mod 10)" unfolding is_digit_def by linarith
    then show ?thesis using False 1 by (simp add: digits_of.simps[of n])
  qed
qed

lemma digits_of_not_Nil: "digits_of n \<noteq> []"
  by (simp add: digits_of.simps[of n])

lemma nat_of_digits_append:
  "nat_of_digits (xs @ ys) = nat_of_digits xs * 10 ^ length ys + nat_of_digits ys"
proof -
  let ?f = "\<lambda>(a::nat) c. 10 * a + (c - 48)"
  have gen: "foldl ?f a ys = a * 10 ^ length ys + foldl ?f 0 ys" for a :: nat
  proof (induction ys arbitrary: a)
    case Nil
    show ?case by simp
  next
    case (Cons y ys)
    let ?d = "y - 48"
    have 1: "foldl ?f (10 * a + ?d) ys = (10 * a + ?d) * 10 ^ length ys + foldl ?f 0 ys"
      by (rule Cons)
    have 2: "foldl ?f ?d ys = ?d * 10 ^ length ys + foldl ?f 0 ys"
      by (rule Cons)
    have L: "foldl ?f a (y # ys) = (10 * a + ?d) * 10 ^ length ys + foldl ?f 0 ys"
      using 1 by simp
    have R: "foldl ?f 0 (y # ys) = ?d * 10 ^ length ys + foldl ?f 0 ys"
      using 2 by simp
    show ?case unfolding L R by (simp add: algebra_simps)
  qed
  show ?thesis unfolding nat_of_digits_def foldl_append by (rule gen)
qed

lemma nat_of_digits_single: "nat_of_digits [c] = c - 48"
  by (simp add: nat_of_digits_def)

lemma nat_of_digits_Nil: "nat_of_digits [] = 0"
  by (simp add: nat_of_digits_def)

lemma nat_of_digits_digits_of: "nat_of_digits (digits_of n) = n"
proof (induction n rule: digits_of.induct)
  case (1 n)
  show ?case
  proof (cases "n < 10")
    case True
    then show ?thesis by (simp add: digits_of.simps[of n] nat_of_digits_single)
  next
    case False
    then show ?thesis
      using 1 by (simp add: digits_of.simps[of n] nat_of_digits_append nat_of_digits_single)
  qed
qed

lemma nat_of_digits_Cons:
  "nat_of_digits (c # xs) = (c - 48) * 10 ^ length xs + nat_of_digits xs"
  using nat_of_digits_append[of "[c]" xs] by (simp add: nat_of_digits_single)

lemma nat_of_digits_zeros: "nat_of_digits (replicate j 48) = 0"
  by (induction j) (simp_all add: nat_of_digits_Nil nat_of_digits_Cons)

lemma normalize_shift:
  assumes "0 < m" and "m mod 10 \<noteq> 0"
  shows "normalize_decimal (m * 10 ^ j) e = (m, e + int j)"
proof (induction j arbitrary: e)
  case 0
  show ?case using assms by (simp add: normalize_decimal.simps[of m])
next
  case (Suc j)
  have "(m * 10 ^ Suc j) mod 10 = 0" and "(m * 10 ^ Suc j) div 10 = m * 10 ^ j"
    by simp_all
  then have "normalize_decimal (m * 10 ^ Suc j) e = normalize_decimal (m * 10 ^ j) (e + 1)"
    using assms(1) by (subst normalize_decimal.simps) simp
  then show ?case using Suc[of "e + 1"] by simp
qed

lemma normalize_normal:
  assumes "0 < m" and "m mod 10 \<noteq> 0"
  shows "normalize_decimal m e = (m, e)"
  using normalize_shift[OF assms, of 0 e] by simp

lemma takeWhile_digits:
  assumes "list_all is_digit xs" and "ys = [] \<or> \<not> is_digit (hd ys)"
  shows "takeWhile is_digit (xs @ ys) = xs" and "dropWhile is_digit (xs @ ys) = ys"
proof -
  have a: "\<And>x. x \<in> set xs \<Longrightarrow> is_digit x" using assms(1) by (simp add: list_all_iff)
  have b: "takeWhile is_digit ys = []" "dropWhile is_digit ys = ys"
    using assms(2) by (cases ys; simp)+
  show "takeWhile is_digit (xs @ ys) = xs" using a b by (simp add: takeWhile_append2)
  show "dropWhile is_digit (xs @ ys) = ys" using a b by (simp add: dropWhile_append2)
qed


subsection \<open>Decimal literals\<close>

text \<open>
  The texts that \<open>Number::toString\<close> produces all have the shape of
  \<open>decimal_text\<close>: a sign, digits, a fraction and an exponent part.
\<close>

definition decimal_text :: "bool \<Rightarrow> jstring \<Rightarrow> jstring \<Rightarrow> jstring \<Rightarrow> jstring" where
  "decimal_text neg ip fp ex =
     (if neg then [c_minus] else []) @ ip @ (if fp = [] then [] else c_dot # fp) @ ex"

definition exponent_part :: "jstring \<Rightarrow> bool" where
  "exponent_part ex =
     (ex = [] \<or> (\<exists>ds. ds \<noteq> [] \<and> list_all is_digit ds
                   \<and> (ex = [101, c_plus] @ ds \<or> ex = [101, c_minus] @ ds)))"

definition num_char :: "nat \<Rightarrow> bool" where
  "num_char c = (is_digit c \<or> c = c_minus \<or> c = c_plus \<or> c = c_dot \<or> c = 101)"

lemma exponent_part_facts:
  assumes "exponent_part ex"
  shows "ex = [] \<or> hd ex = 101" and "exponent_re ex" and "list_all num_char ex"
proof -
  show "ex = [] \<or> hd ex = 101" using assms by (auto simp: exponent_part_def)
  show "exponent_re ex"
    using assms
    by (auto simp: exponent_part_def exponent_re_def startsWith_def split: list.splits)
  show "list_all num_char ex"
    using assms by (auto simp: exponent_part_def num_char_def list_all_iff)
qed

lemma exponent_val_simps:
  "exponent_val [] = 0"
  "exponent_val ([101, c_plus] @ ds) = int (nat_of_digits ds)"
  "exponent_val ([101, c_minus] @ ds) = - int (nat_of_digits ds)"
  by (simp_all add: exponent_val_def startsWith_def)

lemma digit_head:
  assumes "list_all is_digit ip" and "ip \<noteq> []"
  shows "is_digit (hd ip)"
  using assms by (cases ip) simp_all

lemma decimal_text_scan:
  assumes ip: "list_all is_digit ip" "ip \<noteq> []" and fp: "list_all is_digit fp"
    and ex: "exponent_part ex"
  shows "parseFloat (decimal_text neg ip fp ex) =
           (case normalize_decimal (nat_of_digits (ip @ fp)) (exponent_val ex - int (length fp)) of
              (m, e) \<Rightarrow> Finite neg m e)"
    and "numeric_re (decimal_text neg ip fp ex)"
proof -
  let ?frac = "(if fp = [] then [] else c_dot # fp) @ ex"
  let ?s1 = "ip @ ?frac"
  have hd_ip: "is_digit (hd ip)" by (rule digit_head[OF ip])
  then have nm: "hd ip \<noteq> c_minus" by (auto simp: is_digit_def)
  have sw: "startsWith c_minus (decimal_text neg ip fp ex) = neg"
    using ip(2) nm by (cases ip) (auto simp: decimal_text_def startsWith_def)
  have s1: "(if neg then tl (decimal_text neg ip fp ex) else decimal_text neg ip fp ex) = ?s1"
    by (simp add: decimal_text_def)
  have exh: "ex = [] \<or> hd ex = 101" and exre: "exponent_re ex"
    using exponent_part_facts[OF ex] by blast+
  have nd: "\<not> is_digit 101" "\<not> is_digit c_dot" by (simp_all add: is_digit_def)
  have frac_head: "?frac = [] \<or> \<not> is_digit (hd ?frac)"
    using exh nd by (cases "fp = []") auto
  have tw1: "takeWhile is_digit ?s1 = ip" and dw1: "dropWhile is_digit ?s1 = ?frac"
    using takeWhile_digits[OF ip(1) frac_head] by blast+
  have ex_head: "ex = [] \<or> \<not> is_digit (hd ex)" using exh nd by auto
  have ex_nodot: "\<not> startsWith c_dot ex"
    using exh by (cases ex) (auto simp: startsWith_def)
  let ?r2 = "(if startsWith c_dot ?frac then tl ?frac else ?frac)"
  have r2: "?r2 = fp @ ex"
    using ex_nodot by (cases "fp = []") (auto simp: startsWith_def)
  have tw2: "takeWhile is_digit (fp @ ex) = fp" and dw2: "dropWhile is_digit (fp @ ex) = ex"
    using takeWhile_digits[OF fp ex_head] by blast+
  show "parseFloat (decimal_text neg ip fp ex) =
           (case normalize_decimal (nat_of_digits (ip @ fp)) (exponent_val ex - int (length fp)) of
              (m, e) \<Rightarrow> Finite neg m e)"
    unfolding parseFloat_def Let_def sw s1 tw1 dw1 r2 tw2 dw2 by (rule refl)
  show "numeric_re (decimal_text neg ip fp ex)"
    unfolding numeric_re_def Let_def sw s1 tw1 dw1 r2 dw2 using ip(2) exre by simp
qed

lemma decimal_text_chars:
  assumes "list_all is_digit ip" and "list_all is_digit fp" and "exponent_part ex"
  shows "list_all num_char (decimal_text neg ip fp ex)"
  using assms exponent_part_facts(3)[of ex]
  by (auto simp: decimal_text_def num_char_def list_all_iff)


lemma num_char_plain:
  assumes "num_char c"
  shows "\<not> is_space c" and "c \<noteq> c_pipe" and "c \<noteq> c_colon" and "c \<noteq> c_lbrace"
    and "c \<noteq> c_lbrack" and "c \<noteq> c_dquote" and "c \<noteq> c_squote"
  using assms by (auto simp: num_char_def is_digit_def is_space_def)

lemma trim_no_space:
  assumes "list_all (\<lambda>c. \<not> is_space c) s"
  shows "trim s = s"
proof (cases "s = []")
  case True
  then show ?thesis by (simp add: trim_Nil)
next
  case False
  then have "hd s \<in> set s" and "last s \<in> set s" by simp_all
  then show ?thesis using assms False by (intro trim_id) (auto simp: list_all_iff)
qed

lemma numeric_text_not_literal:
  assumes "list_all num_char s"
  shows "s \<noteq> str ''null''" and "s \<noteq> str ''true''" and "s \<noteq> str ''false''"
    and "s \<noteq> str ''undefined''" and "s \<noteq> str ''NaN''" and "s \<noteq> str ''Infinity''"
    and "s \<noteq> str ''-Infinity''"
  using assms by (auto simp: str_def num_char_def is_digit_def)

lemma parse_numeric_text:
  assumes re: "numeric_re s" and ch: "list_all num_char s"
  shows "parseValue s = Inr (JNumber (parseFloat s))"
    and "parse s = Inr (JNumber (parseFloat s))"
proof -
  have all: "\<And>c. c \<in> set s \<Longrightarrow> num_char c" using ch by (simp add: list_all_iff)
  have t: "trim s = s"
    by (rule trim_no_space) (use all num_char_plain(1) in \<open>auto simp: list_all_iff\<close>)
  have ne: "s \<noteq> []" using re by (auto simp: numeric_re_def startsWith_def)
  then have "hd s \<in> set s" by simp
  then have h: "num_char (hd s)" using all by blast
  have sw: "\<not> startsWith c_lbrace s" "\<not> startsWith c_lbrack s"
    "\<not> startsWith c_dquote s" "\<not> startsWith c_squote s"
    using h ne num_char_plain[of "hd s"] by (cases s; auto simp: startsWith_def)+
  show pv: "parseValue s = Inr (JNumber (parseFloat s))"
    using t ne sw re numeric_text_not_literal[OF ch]
    by (simp add: parseValue.simps[of s] Let_def)
  have "\<not> includesChar c_pipe s"
    using all num_char_plain(2) by (auto simp: includesChar_def)
  then show "parse s = Inr (JNumber (parseFloat s))"
    using t ne sw pv by (simp add: parse_def Let_def)
qed

lemma list_all_take_drop:
  assumes "list_all P xs"
  shows "list_all P (take n xs)" and "list_all P (drop n xs)" and "list_all P (tl xs)"
proof -
  show "list_all P (take n xs)" "list_all P (drop n xs)"
    using assms by (auto simp: list_all_iff dest: in_set_takeD in_set_dropD)
  show "list_all P (tl xs)" using assms by (cases xs) simp_all
qed

lemma positive_text_form:
  assumes m: "0 < m" "m mod 10 \<noteq> 0"
  shows "\<exists>ip fp ex. list_all is_digit ip \<and> ip \<noteq> [] \<and> list_all is_digit fp \<and> exponent_part ex
           \<and> positiveToString m e = decimal_text False ip fp ex
           \<and> normalize_decimal (nat_of_digits (ip @ fp)) (exponent_val ex - int (length fp))
               = (m, e)"
proof -
  let ?ds = "digits_of m"
  let ?k = "int (length ?ds)"
  let ?n = "?k + e"
  have dg: "list_all is_digit ?ds" by (rule digits_of_digit)
  have ne: "?ds \<noteq> []" by (rule digits_of_not_Nil)
  have val: "nat_of_digits ?ds = m" by (rule nat_of_digits_digits_of)
  have nn: "normalize_decimal m x = (m, x)" for x by (rule normalize_normal[OF m])
  have ep0: "exponent_part []" by (simp add: exponent_part_def)
  consider (A) "?k \<le> ?n" "?n \<le> 21"
    | (B) "\<not> ?k \<le> ?n" "0 < ?n" "?n \<le> 21"
    | (C) "\<not> ?k \<le> ?n" "\<not> 0 < ?n" "-6 < ?n"
    | (D) "\<not> (?k \<le> ?n \<and> ?n \<le> 21)" "\<not> (0 < ?n \<and> ?n \<le> 21)" "\<not> (-6 < ?n \<and> ?n \<le> 0)"
    by linarith
  then show ?thesis
  proof cases
    case A
    let ?j = "nat (?n - ?k)"
    let ?ip = "?ds @ replicate ?j 48"
    have 1: "positiveToString m e = decimal_text False ?ip [] []"
      using A by (simp add: positiveToString_def Let_def decimal_text_def)
    have 2: "list_all is_digit ?ip" using dg by (auto simp: is_digit_def list_all_iff)
    have "nat_of_digits (?ip @ []) = m * 10 ^ ?j"
      by (simp add: nat_of_digits_append val nat_of_digits_zeros)
    moreover have "int ?j = e" using A by simp
    ultimately have 3: "normalize_decimal (nat_of_digits (?ip @ []))
        (exponent_val [] - int (length ([]::jstring))) = (m, e)"
      using normalize_shift[OF m, of ?j 0] by (simp add: exponent_val_simps)
    show ?thesis using 1 2 3 ne ep0 by (intro exI[of _ ?ip] exI[of _ "[]"]) simp
  next
    case B
    let ?ip = "take (nat ?n) ?ds" and ?fp = "drop (nat ?n) ?ds"
    have lt: "nat ?n < length ?ds" using B by linarith
    have fpne: "?fp \<noteq> []" using lt by simp
    have ipne: "?ip \<noteq> []" using B ne by simp
    have 1: "positiveToString m e = decimal_text False ?ip ?fp []"
      using B fpne by (simp add: positiveToString_def Let_def decimal_text_def)
    have "int (length ?fp) = - e" using B lt by simp
    then have 3: "normalize_decimal (nat_of_digits (?ip @ ?fp))
        (exponent_val [] - int (length ?fp)) = (m, e)"
      using nn[of e] val by (simp add: exponent_val_simps)
    show ?thesis
      using 1 3 ipne ep0 list_all_take_drop(1,2)[OF dg]
      by (intro exI[of _ ?ip] exI[of _ ?fp] exI[of _ "[]"]) simp
  next
    case C
    let ?z = "replicate (nat (- ?n)) 48"
    let ?fp = "?z @ ?ds"
    have fpne: "?fp \<noteq> []" using ne by simp
    have 1: "positiveToString m e = decimal_text False [48] ?fp []"
      using C fpne by (simp add: positiveToString_def Let_def decimal_text_def)
    have 2: "list_all is_digit [48]" "list_all is_digit ?fp"
      using dg by (auto simp: is_digit_def list_all_iff)
    have "nat_of_digits ?fp = m"
      by (simp add: nat_of_digits_append nat_of_digits_zeros val)
    then have "nat_of_digits ([48] @ ?fp) = m"
      by (simp only: nat_of_digits_append[of "[48]"] nat_of_digits_single) simp
    moreover have "int (length ?fp) = - e" using C by simp
    ultimately have 3: "normalize_decimal (nat_of_digits ([48] @ ?fp))
        (exponent_val [] - int (length ?fp)) = (m, e)"
      using nn[of e] by (simp add: exponent_val_simps)
    show ?thesis
      using 1 2 3 ep0 by (intro exI[of _ "[48]"] exI[of _ ?fp] exI[of _ "[]"]) simp
  next
    case D
    let ?x = "?n - 1"
    let ?xs = "digits_of (nat \<bar>?x\<bar>)"
    let ?ex = "[101, if ?x < 0 then c_minus else c_plus] @ ?xs"
    have xs: "list_all is_digit ?xs" "?xs \<noteq> []"
      by (rule digits_of_digit, rule digits_of_not_Nil)
    have ep: "exponent_part ?ex" using xs by (auto simp: exponent_part_def)
    have ev: "exponent_val ?ex = ?x"
      by (simp add: exponent_val_simps[simplified] nat_of_digits_digits_of)
    have form: "positiveToString m e =
        (if ?k = 1 then ?ds @ ?ex else [hd ?ds, c_dot] @ tl ?ds @ ?ex)"
      unfolding positiveToString_def Let_def by (simp only: D if_False)
    show ?thesis
    proof (cases "?k = 1")
      case True
      have 1: "positiveToString m e = decimal_text False ?ds [] ?ex"
        using True by (simp add: form decimal_text_def)
      have "?x = e" using True by simp
      then have 3: "normalize_decimal (nat_of_digits (?ds @ []))
          (exponent_val ?ex - int (length ([]::jstring))) = (m, e)"
        using nn[of e] val ev by simp
      show ?thesis
        using 1 3 dg ne ep by (intro exI[of _ ?ds] exI[of _ "[]"] exI[of _ ?ex]) simp
    next
      case False
      then have "length ?ds \<noteq> 1" by simp
      moreover have "length ?ds \<noteq> 0" using ne by simp
      ultimately have k2: "2 \<le> length ?ds" by linarith
      let ?ip = "[hd ?ds]" and ?fp = "tl ?ds"
      have "length ?fp = length ?ds - 1" by simp
      then have "0 < length ?fp" using k2 by linarith
      then have fpne: "?fp \<noteq> []" by fastforce
      have 1: "positiveToString m e = decimal_text False ?ip ?fp ?ex"
        using False fpne by (simp add: form decimal_text_def)
      have 2: "list_all is_digit ?ip" "list_all is_digit ?fp"
        using digit_head[OF dg ne] list_all_take_drop(3)[OF dg] by simp_all
      have "?ip @ ?fp = ?ds" using ne by simp
      moreover have "?x - int (length ?fp) = e" using k2 by simp
      ultimately have 3: "normalize_decimal (nat_of_digits (?ip @ ?fp))
          (exponent_val ?ex - int (length ?fp)) = (m, e)"
        using nn[of e] val ev by simp
      show ?thesis
        using 1 2 3 ep by (intro exI[of _ ?ip] exI[of _ ?fp] exI[of _ ?ex]) simp
    qed
  qed
qed


subsection \<open>Scalars\<close>

text \<open>
  The finite Numbers of the model that stand for a binary64 value: the decimal is in
  normal form, has at most 17 significant digits, and lies between the smallest
  subnormal and the largest finite value in magnitude. The shortest round-trip decimal
  of every finite binary64 value is among them.
\<close>

definition finite_decimal :: "jnumber \<Rightarrow> bool" where
  "finite_decimal x =
     (case x of
        Finite neg m e \<Rightarrow>
          (if m = 0 then e = 0
           else m mod 10 \<noteq> 0 \<and> length (digits_of m) \<le> 17
                \<and> - 323 \<le> int (length (digits_of m)) + e
                \<and> int (length (digits_of m)) + e \<le> 309)
      | _ \<Rightarrow> True)"

definition special_chars :: jstring where
  "special_chars = str '':|,{}[]'' @ [c_dquote, c_squote, c_nl, c_tab]"

definition claimed_scalar :: "jvalue \<Rightarrow> bool" where
  "claimed_scalar x =
     (case x of
        JNull \<Rightarrow> True
      | JBoolean b \<Rightarrow> True
      | JNumber n \<Rightarrow> finite_decimal n
      | JString s \<Rightarrow> (case s of [c] \<Rightarrow> c \<in> set special_chars | _ \<Rightarrow> False)
      | _ \<Rightarrow> False)"

lemma sign_decimal_text:
  "(if neg then [c_minus] else []) @ decimal_text False ip fp ex = decimal_text neg ip fp ex"
  by (simp add: decimal_text_def)

lemma number_text_round_trip:
  assumes "0 < m" and "m mod 10 \<noteq> 0"
  shows "parse (numberToString (Finite neg m e)) = Inr (JNumber (Finite neg m e))"
    and "parseValue (numberToString (Finite neg m e)) = Inr (JNumber (Finite neg m e))"
proof -
  obtain ip fp ex where f: "list_all is_digit ip" "ip \<noteq> []" "list_all is_digit fp"
      "exponent_part ex" "positiveToString m e = decimal_text False ip fp ex"
      "normalize_decimal (nat_of_digits (ip @ fp)) (exponent_val ex - int (length fp)) = (m, e)"
    using positive_text_form[OF assms, of e] by blast
  have ntext: "numberToString (Finite neg m e) = decimal_text neg ip fp ex"
    using assms(1) f(5) by (simp add: numberToString_def sign_decimal_text)
  have pf: "parseFloat (decimal_text neg ip fp ex) = Finite neg m e"
    using decimal_text_scan(1)[OF f(1-4), of neg] f(6) by simp
  have re: "numeric_re (decimal_text neg ip fp ex)"
    by (rule decimal_text_scan(2)[OF f(1-4)])
  have ch: "list_all num_char (decimal_text neg ip fp ex)"
    by (rule decimal_text_chars[OF f(1) f(3) f(4)])
  show "parse (numberToString (Finite neg m e)) = Inr (JNumber (Finite neg m e))"
    using parse_numeric_text(2)[OF re ch] pf ntext by simp
  show "parseValue (numberToString (Finite neg m e)) = Inr (JNumber (Finite neg m e))"
    using parse_numeric_text(1)[OF re ch] pf ntext by simp
qed

lemma zero_round_trip:
  "parse (stringify (JNumber (Finite neg 0 0)) no_options) = Inr (JNumber (Finite neg 0 0))"
proof (cases neg)
  case True
  have "parse (stringify (JNumber (Finite True 0 0)) no_options) = Inr (JNumber (Finite True 0 0))"
    by code_simp
  then show ?thesis using True by simp
next
  case False
  have "parse (stringify (JNumber (Finite False 0 0)) no_options) = Inr (JNumber (Finite False 0 0))"
    by code_simp
  then show ?thesis using False by simp
qed

lemma literal_round_trip:
  "parse (stringify JNull no_options) = Inr JNull"
  "parse (stringify (JBoolean True) no_options) = Inr (JBoolean True)"
  "parse (stringify (JBoolean False) no_options) = Inr (JBoolean False)"
  "parse (stringify (JNumber NaN) no_options) = Inr (JNumber NaN)"
  "parse (stringify (JNumber Infinity) no_options) = Inr (JNumber Infinity)"
  "parse (stringify (JNumber NegInfinity) no_options) = Inr (JNumber NegInfinity)"
  by code_simp+

lemma special_char_round_trip:
  "list_all (\<lambda>c. parse (stringify (JString [c]) no_options) = Inr (JString [c])) special_chars"
  by code_simp

text \<open>
  Claim C2. \<open>parse(stringify(x))\<close> is \<open>x\<close> for null, true, false, NaN, Infinity,
  -Infinity, 0 and -0 (NaN and -0 are values of their own in the model, so equality is
  the comparison by is-NaN and by sign), for every finite Number, and for every
  one-character String made of one of \<open>: | , { } [ ] " '\<close>, newline and tab.
\<close>

theorem scalar_round_trip:
  assumes "claimed_scalar x"
  shows "parse (stringify x no_options) = Inr x"
proof (cases x)
  case (JNumber n)
  show ?thesis
  proof (cases n)
    case (Finite neg m e)
    show ?thesis
    proof (cases "m = 0")
      case True
      then have "e = 0" using assms JNumber Finite by (simp add: claimed_scalar_def finite_decimal_def)
      then show ?thesis using True JNumber Finite zero_round_trip by simp
    next
      case False
      then have m: "0 < m" "m mod 10 \<noteq> 0"
        using assms JNumber Finite by (simp_all add: claimed_scalar_def finite_decimal_def)
      have "stringify x no_options = numberToString (Finite neg m e)"
        using False JNumber Finite by (simp add: stringify_def no_options_def)
      then show ?thesis using number_text_round_trip(1)[OF m] JNumber Finite by simp
    qed
  qed (use JNumber literal_round_trip in simp_all)
next
  case (JString s)
  then obtain c where c: "s = [c]" "c \<in> set special_chars"
    using assms by (auto simp: claimed_scalar_def split: list.splits)
  then show ?thesis using special_char_round_trip JString by (simp add: list_all_iff)
next
  case (JBoolean b)
  then show ?thesis using literal_round_trip by (cases b) simp_all
qed (use assms literal_round_trip in \<open>simp_all add: claimed_scalar_def\<close>)

theorem scalar_round_trip_witness:
  "claimed_scalar (JNumber (Finite True 125 (- 5)))
   \<and> stringify (JNumber (Finite True 125 (- 5))) no_options = str ''-0.00125''
   \<and> parse (str ''-0.00125'') = Inr (JNumber (Finite True 125 (- 5)))
   \<and> claimed_scalar (JNumber (Finite False 15 20))
   \<and> stringify (JNumber (Finite False 15 20)) no_options = str ''1.5e+21''
   \<and> parse (str ''1.5e+21'') = Inr (JNumber (Finite False 15 20))
   \<and> stringify (JNumber (Finite False 5 (- 7))) no_options = str ''5e-7''
   \<and> stringify (JNumber (Finite False 12 1)) no_options = str ''120''
   \<and> stringify (JNumber (Finite False 12 (- 1))) no_options = str ''1.2''
   \<and> parse (str ''120'') = Inr (JNumber (Finite False 12 1))
   \<and> claimed_scalar (JNumber (Finite True 0 0))
   \<and> stringify (JNumber (Finite True 0 0)) no_options = str ''-0''
   \<and> parse (str ''-0'') = Inr (JNumber (Finite True 0 0))
   \<and> parse (str ''0'') = Inr (JNumber (Finite False 0 0))
   \<and> claimed_scalar (JString [c_pipe])
   \<and> stringify (JString [c_pipe]) no_options = [c_dquote, c_pipe, c_dquote]
   \<and> parse [c_dquote, c_pipe, c_dquote] = Inr (JString [c_pipe])
   \<and> stringify (JString [c_nl]) no_options = [c_dquote, c_bslash, 110, c_dquote]
   \<and> parse (stringify (JString [c_dquote]) no_options) = Inr (JString [c_dquote])"
proof -
  have 1: "claimed_scalar (JNumber (Finite True 125 (- 5)))" by code_simp
  have 2: "stringify (JNumber (Finite True 125 (- 5))) no_options = str ''-0.00125''" by code_simp
  have 3: "claimed_scalar (JNumber (Finite False 15 20))" by code_simp
  have 4: "stringify (JNumber (Finite False 15 20)) no_options = str ''1.5e+21''" by code_simp
  have 5: "stringify (JNumber (Finite False 5 (- 7))) no_options = str ''5e-7''" by code_simp
  have 6: "stringify (JNumber (Finite False 12 1)) no_options = str ''120''" by code_simp
  have 7: "stringify (JNumber (Finite False 12 (- 1))) no_options = str ''1.2''" by code_simp
  have 8: "parse (str ''120'') = Inr (JNumber (Finite False 12 1))" by code_simp
  have 9: "claimed_scalar (JNumber (Finite True 0 0))" by code_simp
  have 10: "stringify (JNumber (Finite True 0 0)) no_options = str ''-0''" by code_simp
  have 11: "parse (str ''0'') = Inr (JNumber (Finite False 0 0))" by code_simp
  have 12: "claimed_scalar (JString [c_pipe])" by code_simp
  have 13: "stringify (JString [c_pipe]) no_options = [c_dquote, c_pipe, c_dquote]" by code_simp
  have 14: "stringify (JString [c_nl]) no_options = [c_dquote, c_bslash, 110, c_dquote]" by code_simp
  have 15: "claimed_scalar (JString [c_dquote])" by code_simp
  from scalar_round_trip[OF 1] 2 have a: "parse (str ''-0.00125'') = Inr (JNumber (Finite True 125 (- 5)))"
    by simp
  from scalar_round_trip[OF 3] 4 have b: "parse (str ''1.5e+21'') = Inr (JNumber (Finite False 15 20))"
    by simp
  from scalar_round_trip[OF 9] 10 have c: "parse (str ''-0'') = Inr (JNumber (Finite True 0 0))"
    by simp
  from scalar_round_trip[OF 12] 13 have d: "parse [c_dquote, c_pipe, c_dquote] = Inr (JString [c_pipe])"
    by simp
  note e = scalar_round_trip[OF 15]
  from 1 2 3 4 5 6 7 8 9 10 11 12 13 14 a b c d e show ?thesis by blast
qed


subsection \<open>Scanning text without quotes and brackets\<close>

definition quiet :: "nat \<Rightarrow> bool" where
  "quiet c = (c \<noteq> c_dquote \<and> c \<noteq> c_squote \<and> c \<noteq> c_lbrace \<and> c \<noteq> c_rbrace
              \<and> c \<noteq> c_lbrack \<and> c \<noteq> c_rbrack)"

lemma track_quiet: "quiet c \<Longrightarrow> track prev c st = st"
  by (cases st) (simp add: track_def quoteStep_def depthStep_def quiet_def Let_def)

lemma track_open: "track prev c_lbrace (Scan d False sc) = Scan (d + 1) False sc"
  by (simp add: track_def quoteStep_def depthStep_def Let_def)

lemma track_close: "track prev c_rbrace (Scan d False sc) = Scan (d - 1) False sc"
  by (simp add: track_def quoteStep_def depthStep_def Let_def)

definition last_char :: "nat option \<Rightarrow> jstring \<Rightarrow> nat option" where
  "last_char prev xs = (if xs = [] then prev else Some (last xs))"

lemma last_char_Cons: "last_char (Some x) xs = last_char prev (x # xs)"
  by (simp add: last_char_def)

lemma splitArrayItems_skip:
  assumes "list_all quiet xs" and "c_comma \<notin> set xs"
  shows "splitArrayItems_loop prev (xs @ rest) parts cur st
         = splitArrayItems_loop (last_char prev xs) rest parts (cur @ xs) st"
  using assms
proof (induction xs arbitrary: prev cur)
  case Nil
  show ?case by (simp add: last_char_def)
next
  case (Cons x xs)
  have q: "quiet x" "x \<noteq> c_comma" and r: "list_all quiet xs" "c_comma \<notin> set xs"
    using Cons.prems by auto
  have "splitArrayItems_loop prev ((x # xs) @ rest) parts cur st
        = splitArrayItems_loop (Some x) (xs @ rest) parts (cur @ [x]) st"
    using q by (simp add: track_quiet Let_def)
  also have "\<dots> = splitArrayItems_loop (last_char (Some x) xs) rest parts ((cur @ [x]) @ xs) st"
    by (rule Cons.IH[OF r])
  finally show ?case by (simp add: last_char_Cons[of x xs prev])
qed

lemma splitByPipe_skip:
  assumes "list_all quiet xs" and "c_pipe \<notin> set xs"
  shows "splitByPipe_loop prev (xs @ rest) parts cur st
         = splitByPipe_loop (last_char prev xs) rest parts (cur @ xs) st"
  using assms
proof (induction xs arbitrary: prev cur)
  case Nil
  show ?case by (simp add: last_char_def)
next
  case (Cons x xs)
  have q: "quiet x" "x \<noteq> c_pipe" and r: "list_all quiet xs" "c_pipe \<notin> set xs"
    using Cons.prems by auto
  have "splitByPipe_loop prev ((x # xs) @ rest) parts cur st
        = splitByPipe_loop (Some x) (xs @ rest) parts (cur @ [x]) st"
    using q by (simp add: track_quiet Let_def)
  also have "\<dots> = splitByPipe_loop (last_char (Some x) xs) rest parts ((cur @ [x]) @ xs) st"
    by (rule Cons.IH[OF r])
  finally show ?case by (simp add: last_char_Cons[of x xs prev])
qed

lemma findTopLevelColon_skip:
  assumes "list_all quiet xs" and "c_colon \<notin> set xs"
  shows "findTopLevelColon_loop i prev (xs @ rest) st
         = findTopLevelColon_loop (i + length xs) (last_char prev xs) rest st"
  using assms
proof (induction xs arbitrary: prev i)
  case Nil
  show ?case by (simp add: last_char_def)
next
  case (Cons x xs)
  have q: "quiet x" "x \<noteq> c_colon" and r: "list_all quiet xs" "c_colon \<notin> set xs"
    using Cons.prems by auto
  have "findTopLevelColon_loop i prev ((x # xs) @ rest) st
        = findTopLevelColon_loop (i + 1) (Some x) (xs @ rest) st"
    using q by (simp add: track_quiet Let_def)
  also have "\<dots> = findTopLevelColon_loop (i + 1 + length xs) (last_char (Some x) xs) rest st"
    by (rule Cons.IH[OF r])
  finally show ?case by (simp add: last_char_Cons[of x xs prev])
qed

lemma findTopLevelColon_key:
  assumes "list_all quiet k" and "c_colon \<notin> set k"
  shows "findTopLevelColon (k @ c_colon # rest) = Some (length k)"
proof -
  have "findTopLevelColon (k @ c_colon # rest)
      = findTopLevelColon_loop (length k) (last_char None k) (c_colon # rest) scan0"
    using findTopLevelColon_skip[OF assms, of 0 None "c_colon # rest" scan0]
    by (simp add: findTopLevelColon_def)
  also have "\<dots> = Some (length k)"
    by (simp add: scan0_def track_quiet quiet_def Let_def)
  finally show ?thesis .
qed

lemma splitByPipe_single:
  assumes "list_all quiet xs" and "c_pipe \<notin> set xs" and "xs \<noteq> []"
  shows "splitByPipe xs = [xs]"
  using splitByPipe_skip[OF assms(1,2), of None "[]" "[]" "[]" scan0] assms(3)
  by (simp add: splitByPipe_def)

subsection \<open>Bare tokens\<close>

text \<open>
  A bare token is a text that the serializer writes without quotes and that the
  splitters pass over: no white space and none of the characters
  \<open>: | , { } [ ] " '\<close>.
\<close>

definition plain_char :: "nat \<Rightarrow> bool" where
  "plain_char c = (\<not> is_space c \<and> c \<noteq> c_colon \<and> c \<noteq> c_pipe \<and> c \<noteq> c_comma
                   \<and> c \<noteq> c_lbrace \<and> c \<noteq> c_rbrace \<and> c \<noteq> c_lbrack \<and> c \<noteq> c_rbrack
                   \<and> c \<noteq> c_dquote \<and> c \<noteq> c_squote)"

definition bare_key :: "jstring \<Rightarrow> bool" where
  "bare_key k = (k \<noteq> [] \<and> list_all plain_char k \<and> k \<noteq> str ''__proto__'')"

definition bare_string :: "jstring \<Rightarrow> bool" where
  "bare_string s =
     (s \<noteq> [] \<and> list_all plain_char s \<and> \<not> numeric_re s
      \<and> s \<noteq> str ''null'' \<and> s \<noteq> str ''true'' \<and> s \<noteq> str ''false''
      \<and> s \<noteq> str ''undefined'' \<and> s \<noteq> str ''NaN'' \<and> s \<noteq> str ''Infinity''
      \<and> s \<noteq> str ''-Infinity'')"

definition bare_cell :: "jvalue \<Rightarrow> bool" where
  "bare_cell v =
     (case v of
        JNull \<Rightarrow> True
      | JUndefined \<Rightarrow> True
      | JBoolean b \<Rightarrow> True
      | JNumber n \<Rightarrow> finite_decimal n
      | JString s \<Rightarrow> bare_string s
      | _ \<Rightarrow> False)"

lemma plain_char_facts:
  assumes "plain_char c"
  shows "quiet c" and "\<not> is_space c" and "c \<noteq> c_comma" and "c \<noteq> c_pipe" and "c \<noteq> c_colon"
  using assms by (auto simp: plain_char_def quiet_def)

lemma plain_facts:
  assumes "list_all plain_char s"
  shows "list_all quiet s" and "c_comma \<notin> set s" and "c_pipe \<notin> set s" and "c_colon \<notin> set s"
    and "trim s = s" and "\<not> needsQuoting s"
proof -
  have a: "\<And>c. c \<in> set s \<Longrightarrow> plain_char c" using assms by (simp add: list_all_iff)
  show "list_all quiet s" using a plain_char_facts(1) by (auto simp: list_all_iff)
  show "c_comma \<notin> set s" "c_pipe \<notin> set s" "c_colon \<notin> set s"
    using a plain_char_facts(3-5) by blast+
  show "trim s = s"
    by (rule trim_no_space) (use a plain_char_facts(2) in \<open>auto simp: list_all_iff\<close>)
  show "\<not> needsQuoting s"
    using a by (auto simp: needsQuoting_def includesChar_def plain_char_def is_space_def)
qed

lemma num_char_plain_char: "num_char c \<Longrightarrow> plain_char c"
  by (auto simp: num_char_def plain_char_def is_digit_def is_space_def)

lemma number_text_chars:
  assumes "0 < m" and "m mod 10 \<noteq> 0"
  shows "list_all num_char (numberToString (Finite neg m e))"
    and "numberToString (Finite neg m e) \<noteq> []"
proof -
  obtain ip fp ex where f: "list_all is_digit ip" "ip \<noteq> []" "list_all is_digit fp"
      "exponent_part ex" "positiveToString m e = decimal_text False ip fp ex"
    using positive_text_form[OF assms, of e] by blast
  have ntext: "numberToString (Finite neg m e) = decimal_text neg ip fp ex"
    using assms(1) f(5) by (simp add: numberToString_def sign_decimal_text)
  show "list_all num_char (numberToString (Finite neg m e))"
    using decimal_text_chars[OF f(1) f(3) f(4), of neg] ntext by simp
  show "numberToString (Finite neg m e) \<noteq> []"
    using ntext f(2) by (simp add: decimal_text_def)
qed

lemma literal_texts:
  "list_all plain_char (str ''null'')" "parseValue (str ''null'') = Inr JNull"
  "list_all plain_char (str ''undefined'')" "parseValue (str ''undefined'') = Inr JUndefined"
  "list_all plain_char (str ''true'')" "parseValue (str ''true'') = Inr (JBoolean True)"
  "list_all plain_char (str ''false'')" "parseValue (str ''false'') = Inr (JBoolean False)"
  "list_all plain_char (str ''NaN'')" "parseValue (str ''NaN'') = Inr (JNumber NaN)"
  "list_all plain_char (str ''Infinity'')" "parseValue (str ''Infinity'') = Inr (JNumber Infinity)"
  "list_all plain_char (str ''-Infinity'')"
  "parseValue (str ''-Infinity'') = Inr (JNumber NegInfinity)"
  "list_all plain_char (str ''0'')" "parseValue (str ''0'') = Inr (JNumber (Finite False 0 0))"
  "list_all plain_char (str ''-0'')" "parseValue (str ''-0'') = Inr (JNumber (Finite True 0 0))"
  by code_simp+

lemma bare_string_parse:
  assumes "bare_string s"
  shows "parseValue s = Inr (JString s)"
proof -
  have p: "list_all plain_char s" and ne: "s \<noteq> []" using assms by (auto simp: bare_string_def)
  then have "plain_char (hd s)" by (cases s) auto
  then have "\<not> startsWith c_dquote s" "\<not> startsWith c_squote s"
    "\<not> startsWith c_lbrace s" "\<not> startsWith c_lbrack s"
    using ne by (cases s; auto simp: startsWith_def plain_char_def)+
  then show ?thesis
    using assms plain_facts(5)[OF p]
    by (simp add: parseValue.simps[of s] Let_def bare_string_def)
qed

lemma bare_cell_text:
  assumes "bare_cell v"
  shows "stringifyValue v d p c \<noteq> []"
    and "list_all plain_char (stringifyValue v d p c)"
    and "parseValue (stringifyValue v d p c) = Inr v"
proof -
  have "stringifyValue v d p c \<noteq> [] \<and> list_all plain_char (stringifyValue v d p c)
      \<and> parseValue (stringifyValue v d p c) = Inr v"
  proof (cases v)
    case JNull
    then show ?thesis using literal_texts by (simp add: str_def)
  next
    case JUndefined
    then show ?thesis using literal_texts by (simp add: str_def)
  next
    case (JBoolean b)
    then show ?thesis using literal_texts by (cases b) (simp_all add: str_def)
  next
    case (JNumber n)
    show ?thesis
    proof (cases n)
      case (Finite neg m e)
      show ?thesis
      proof (cases "m = 0")
        case True
        then have e: "e = 0" using assms JNumber Finite by (simp add: bare_cell_def finite_decimal_def)
        show ?thesis
          using True e JNumber Finite literal_texts
          by (cases neg) (simp_all add: numberToString_def str_def)
      next
        case False
        then have m: "0 < m" "m mod 10 \<noteq> 0"
          using assms JNumber Finite by (simp_all add: bare_cell_def finite_decimal_def)
        have t: "stringifyValue v d p c = numberToString (Finite neg m e)"
          using False JNumber Finite by simp
        have "list_all plain_char (numberToString (Finite neg m e))"
          using number_text_chars(1)[OF m, of neg e] num_char_plain_char
          by (auto simp: list_all_iff)
        then show ?thesis
          using t number_text_chars(2)[OF m] number_text_round_trip(2)[OF m] JNumber Finite
          by simp
      qed
    qed (use JNumber literal_texts in \<open>simp_all add: str_def\<close>)
  next
    case (JString s)
    then have b: "bare_string s" using assms by (simp add: bare_cell_def)
    then have p: "list_all plain_char s" "s \<noteq> []" by (auto simp: bare_string_def)
    have "stringifyValue v d p c = s" using JString plain_facts(6)[OF p(1)] by simp
    then show ?thesis using p bare_string_parse[OF b] JString by simp
  qed (use assms in \<open>simp_all add: bare_cell_def\<close>)
  then show "stringifyValue v d p c \<noteq> []"
    and "list_all plain_char (stringifyValue v d p c)"
    and "parseValue (stringifyValue v d p c) = Inr v" by blast+
qed

subsection \<open>Splitting a joined list\<close>

definition comma_chunk :: "jstring \<Rightarrow> bool" where
  "comma_chunk t =
     (trim t \<noteq> [] \<and>
      (\<forall>prev rest parts cur sc.
         splitArrayItems_loop prev (t @ rest) parts cur (Scan 0 False sc)
         = splitArrayItems_loop (Some (last t)) rest parts (cur @ t) (Scan 0 False sc)))"

lemma comma_hit:
  "splitArrayItems_loop prev (c_comma # rest) parts cur (Scan 0 False sc)
   = splitArrayItems_loop (Some c_comma) rest
       (if trim cur \<noteq> [] then parts @ [cur] else parts) [] (Scan 0 False sc)"
  by (simp add: track_quiet quiet_def Let_def)

lemma splitArrayItems_loop_join:
  assumes "\<And>t. t \<in> set (x # xs) \<Longrightarrow> comma_chunk t"
  shows "splitArrayItems_loop prev (join [c_comma] (x # xs)) parts [] (Scan 0 False sc)
         = parts @ x # xs"
  using assms
proof (induction xs arbitrary: x prev parts)
  case Nil
  then have c: "comma_chunk x" by simp
  then have "splitArrayItems_loop prev (x @ []) parts [] (Scan 0 False sc)
      = splitArrayItems_loop (Some (last x)) [] parts ([] @ x) (Scan 0 False sc)"
    unfolding comma_chunk_def by blast
  then show ?case using c by (simp add: comma_chunk_def)
next
  case (Cons y ys)
  have c: "comma_chunk x" using Cons.prems by simp
  then have tx: "trim x \<noteq> []" by (simp add: comma_chunk_def)
  have "splitArrayItems_loop prev (x @ c_comma # join [c_comma] (y # ys)) parts [] (Scan 0 False sc)
      = splitArrayItems_loop (Some (last x)) (c_comma # join [c_comma] (y # ys)) parts ([] @ x)
          (Scan 0 False sc)"
    using c unfolding comma_chunk_def by blast
  also have "\<dots> = splitArrayItems_loop (Some c_comma) (join [c_comma] (y # ys)) (parts @ [x]) []
          (Scan 0 False sc)"
    using tx by (subst comma_hit) simp
  also have "\<dots> = (parts @ [x]) @ y # ys"
    by (rule Cons.IH) (use Cons.prems in simp)
  finally show ?case by simp
qed

lemma splitArrayItems_join:
  assumes "ts \<noteq> []" and "\<And>t. t \<in> set ts \<Longrightarrow> comma_chunk t"
  shows "splitArrayItems (join [c_comma] ts) = ts"
proof -
  obtain x xs where ts: "ts = x # xs" using assms(1) by (cases ts) auto
  show ?thesis
    using splitArrayItems_loop_join[of x xs None "[]" None] assms(2) ts
    by (simp add: splitArrayItems_def scan0_def)
qed

lemma plain_comma_chunk:
  assumes "list_all plain_char t" and "t \<noteq> []"
  shows "comma_chunk t"
proof -
  have "splitArrayItems_loop prev (t @ rest) parts cur st
      = splitArrayItems_loop (Some (last t)) rest parts (cur @ t) st" for prev rest parts cur st
    using splitArrayItems_skip[OF plain_facts(1,2)[OF assms(1)], of prev rest parts cur st] assms(2)
    by (simp add: last_char_def)
  then show ?thesis using plain_facts(5)[OF assms(1)] assms(2) by (simp add: comma_chunk_def)
qed

lemma trim_braced: "trim (c_lbrace # body @ [c_rbrace]) = c_lbrace # body @ [c_rbrace]"
  by (rule trim_id) (simp_all add: is_space_def)

lemma trim_bracketed: "trim (c_lbrack # body @ [c_rbrack]) = c_lbrack # body @ [c_rbrack]"
  by (rule trim_id) (simp_all add: is_space_def)

lemma braced_comma_chunk:
  assumes "list_all quiet body" and "c_comma \<notin> set body"
  shows "comma_chunk (c_lbrace # body @ [c_rbrace])"
proof -
  have "splitArrayItems_loop prev ((c_lbrace # body @ [c_rbrace]) @ rest) parts cur (Scan 0 False sc)
      = splitArrayItems_loop (Some c_rbrace) rest parts (cur @ c_lbrace # body @ [c_rbrace])
          (Scan 0 False sc)" for prev rest parts cur sc
  proof -
    have "splitArrayItems_loop prev ((c_lbrace # body @ [c_rbrace]) @ rest) parts cur (Scan 0 False sc)
        = splitArrayItems_loop (Some c_lbrace) (body @ c_rbrace # rest) parts (cur @ [c_lbrace])
            (Scan 1 False sc)"
      by (simp add: track_open Let_def)
    also have "\<dots> = splitArrayItems_loop (last_char (Some c_lbrace) body) (c_rbrace # rest) parts
            ((cur @ [c_lbrace]) @ body) (Scan 1 False sc)"
      by (rule splitArrayItems_skip[OF assms])
    also have "\<dots> = splitArrayItems_loop (Some c_rbrace) rest parts
            (((cur @ [c_lbrace]) @ body) @ [c_rbrace]) (Scan 0 False sc)"
      by (simp add: track_close Let_def)
    finally show ?thesis by simp
  qed
  then show ?thesis
    unfolding comma_chunk_def using trim_braced[of body] by simp
qed

lemma slice_inner_wrapped: "slice_inner (a # xs @ [b]) = xs"
  by (simp add: slice_inner_def butlast_append)

subsection \<open>Arrays of objects with at most one key\<close>

definition small_object :: "jvalue \<Rightarrow> bool" where
  "small_object v =
     (case v of
        JObject entries \<Rightarrow>
          (case entries of
             [] \<Rightarrow> True
           | [kv] \<Rightarrow> bare_key (fst kv) \<and> bare_cell (snd kv)
           | _ \<Rightarrow> False)
      | _ \<Rightarrow> False)"

lemma obj_set_first: "k \<noteq> str ''__proto__'' \<Longrightarrow> obj_set [] k x = [(k, x)]"
  by (simp add: obj_set_def)

lemma parseObject_braced:
  "parseObject (c_lbrace # body @ [c_rbrace])
   = (if trim body = [] then Inr (JObject []) else parsePipeDelimited (trim body))"
  using trim_braced[of body]
  by (simp add: parseObject.simps[of "c_lbrace # body @ [c_rbrace]"] Let_def startsWith_def
      endsWith_def slice_inner_wrapped)

lemma parseValue_braced:
  "parseValue (c_lbrace # body @ [c_rbrace]) = parseObject (c_lbrace # body @ [c_rbrace])"
  using trim_braced[of body]
  by (simp add: parseValue.simps[of "c_lbrace # body @ [c_rbrace]"] Let_def startsWith_def
      endsWith_def str_def)

lemma parse_braced_pair:
  assumes k: "bare_key k" and tx: "list_all plain_char tx" "tx \<noteq> []"
    and px: "parseValue tx = Inr x"
  shows "parseValue (c_lbrace # (k @ c_colon # tx) @ [c_rbrace]) = Inr (JObject [(k, x)])"
proof -
  let ?body = "k @ c_colon # tx"
  let ?T = "c_lbrace # ?body @ [c_rbrace]"
  have kp: "list_all plain_char k" and kne: "k \<noteq> []" and kproto: "k \<noteq> str ''__proto__''"
    using k by (auto simp: bare_key_def)
  have bq: "list_all quiet ?body" and bnp: "c_pipe \<notin> set ?body"
    using plain_facts(1,3)[OF kp] plain_facts(1,3)[OF tx(1)] by (simp_all add: quiet_def)
  have "list_all (\<lambda>c. \<not> is_space c) ?body"
    using kp tx(1) by (auto simp: list_all_iff plain_char_def is_space_def)
  then have tb: "trim ?body = ?body" by (rule trim_no_space)
  have sp: "splitByPipe ?body = [?body]"
    by (rule splitByPipe_single[OF bq bnp]) simp
  have fc: "findTopLevelColon ?body = Some (length k)"
    by (rule findTopLevelColon_key[OF plain_facts(1,4)[OF kp]])
  have pd: "parsePipeDelimited ?body = Inr (JObject [(k, x)])"
    using sp tb fc plain_facts(5)[OF kp] plain_facts(5)[OF tx(1)] px obj_set_first[OF kproto]
    by (simp add: parsePipeDelimited.simps[of ?body] Let_def)
  have bne: "?body \<noteq> []" by simp
  show ?thesis
    unfolding parseValue_braced parseObject_braced tb using pd bne by (simp only: if_False)
qed

lemma parse_empty_braces: "parseValue [c_lbrace, c_rbrace] = Inr (JObject [])"
  by code_simp

lemma small_object_text:
  assumes "small_object v"
  shows "\<exists>body. stringifyValue v d False c = c_lbrace # body @ [c_rbrace]
           \<and> list_all quiet body \<and> c_comma \<notin> set body \<and> c_pipe \<notin> set body
           \<and> parseValue (c_lbrace # body @ [c_rbrace]) = Inr v"
proof -
  from assms obtain entries where v: "v = JObject entries"
    by (cases v) (auto simp: small_object_def)
  show ?thesis
  proof (cases entries)
    case Nil
    then have "stringifyValue v d False c = c_lbrace # [] @ [c_rbrace]"
      using v by (simp add: str_def)
    then show ?thesis using parse_empty_braces v Nil by (intro exI[of _ "[]"]) simp
  next
    case (Cons kv rest)
    then have rest: "rest = []" and k: "bare_key (fst kv)" and x: "bare_cell (snd kv)"
      using assms v by (auto simp: small_object_def split: list.splits)
    let ?k = "fst kv" and ?tx = "stringifyValue (snd kv) (d + 1) False c"
    let ?body = "?k @ c_colon # ?tx"
    have kp: "list_all plain_char ?k" using k by (simp add: bare_key_def)
    note tx = bare_cell_text[OF x, of "d + 1" False c]
    have t: "stringifyValue v d False c = c_lbrace # ?body @ [c_rbrace]"
      using v Cons rest by simp
    have q: "list_all quiet ?body" "c_comma \<notin> set ?body" "c_pipe \<notin> set ?body"
      using plain_facts(1-3)[OF kp] plain_facts(1-3)[OF tx(2)] by (simp_all add: quiet_def)
    have "parseValue (c_lbrace # ?body @ [c_rbrace]) = Inr (JObject [(?k, snd kv)])"
      by (rule parse_braced_pair[OF k tx(2) tx(1) tx(3)])
    then have "parseValue (c_lbrace # ?body @ [c_rbrace]) = Inr v"
      using v Cons rest by simp
    then show ?thesis using t q by (intro exI[of _ ?body]) simp
  qed
qed

lemma mapE_map_Inr:
  assumes "\<And>v. v \<in> set vs \<Longrightarrow> f (g v) = Inr v"
  shows "mapE f (map g vs) = Inr vs"
  using assms by (induction vs) simp_all

lemma join_comma_wrapped:
  assumes "ts \<noteq> []" and "\<And>t. t \<in> set ts \<Longrightarrow> \<exists>body. t = c_lbrace # body @ [c_rbrace]"
  shows "\<exists>inner. join [c_comma] ts = c_lbrace # inner @ [c_rbrace]"
  using assms
proof (induction ts rule: join.induct[of _ "[c_comma]"])
  case (1 sep)
  then show ?case by simp
next
  case (2 sep x)
  then show ?case by simp
next
  case (3 sep x y ys)
  obtain b where x: "x = c_lbrace # b @ [c_rbrace]" using 3(3) by auto
  have "\<exists>inner. join sep (y # ys) = c_lbrace # inner @ [c_rbrace]"
    by (rule 3(1)) (use 3(3) in auto)
  then obtain i where "join sep (y # ys) = c_lbrace # i @ [c_rbrace]" by blast
  then have "join sep (x # y # ys) = c_lbrace # (b @ [c_rbrace] @ sep @ c_lbrace # i) @ [c_rbrace]"
    using x by simp
  then show ?case by blast
qed

lemma parseArray_bracketed:
  "parseArray (c_lbrack # body @ [c_rbrack])
   = (let content = trim body
      in if content = [] then Inr (JArray [])
         else if includesChar c_pipe content \<and> includesChar c_colon content
           then parseColumnarArray content
         else (case mapE (\<lambda>item. parseValue (trim item)) (splitArrayItems content) of
                 Inl err \<Rightarrow> Inl err
               | Inr vs \<Rightarrow> Inr (JArray (filter (\<lambda>v. v \<noteq> JUndefined) vs))))"
  using trim_bracketed[of body]
  by (simp add: parseArray.simps[of "c_lbrack # body @ [c_rbrack]"] Let_def startsWith_def
      endsWith_def slice_inner_wrapped)

lemma parse_bracketed:
  "parse (c_lbrack # body @ [c_rbrack]) = parseArray (c_lbrack # body @ [c_rbrack])"
  using trim_bracketed[of body] by (simp add: parse_def Let_def startsWith_def)

lemma replace_none: "a \<notin> set s \<Longrightarrow> map (\<lambda>c. if c = a then b else c) s = s"
  by (induction s) auto

lemma set_join: "set (join sep ts) \<subseteq> set sep \<union> \<Union> (set ` set ts)"
  by (induction sep ts rule: join.induct) auto

lemma standard_array_text:
  assumes "arr \<noteq> []" and "\<not> (col \<and> isArrayOfObjects arr)"
  shows "stringifyValue (JArray arr) dep pty col =
           [c_lbrack] @ map (\<lambda>c. if c = c_pipe then c_comma else c)
              (join [c_comma] (map (\<lambda>item. stringifyValue item (dep + 1) pty col) arr))
           @ [c_rbrack]"
  using assms by (auto simp: replace1_single)

lemma small_objects_round_trip:
  assumes ne: "arr \<noteq> []" and std: "\<not> (col \<and> isArrayOfObjects arr)"
    and small: "list_all small_object arr"
  shows "parse (stringifyValue (JArray arr) 0 False col) = Inr (JArray arr)"
proof -
  let ?txt = "\<lambda>item. stringifyValue item (0 + 1) False col"
  let ?ts = "map ?txt arr"
  have item: "\<exists>body. ?txt v = c_lbrace # body @ [c_rbrace]
           \<and> list_all quiet body \<and> c_comma \<notin> set body \<and> c_pipe \<notin> set body
           \<and> parseValue (c_lbrace # body @ [c_rbrace]) = Inr v" if "v \<in> set arr" for v
    using small that small_object_text[of v "0 + 1" col] by (simp add: list_all_iff)
  have chunk: "comma_chunk t" if "t \<in> set ?ts" for t
    using that item braced_comma_chunk by fastforce
  have nopipe: "c_pipe \<notin> set (join [c_comma] ?ts)"
  proof -
    have "c_pipe \<notin> set t" if "t \<in> set ?ts" for t using that item by fastforce
    then show ?thesis using set_join[of "[c_comma]" ?ts] by auto
  qed
  have tsne: "?ts \<noteq> []" using ne by simp
  have wrapped: "\<exists>inner. join [c_comma] ?ts = c_lbrace # inner @ [c_rbrace]"
    by (rule join_comma_wrapped[OF tsne]) (use item in fastforce)
  then have tj: "trim (join [c_comma] ?ts) = join [c_comma] ?ts"
    using trim_braced by fastforce
  have jne: "join [c_comma] ?ts \<noteq> []" using wrapped by auto
  have split: "splitArrayItems (join [c_comma] ?ts) = ?ts"
    by (rule splitArrayItems_join[OF tsne chunk])
  have each: "parseValue (trim (?txt v)) = Inr v" if "v \<in> set arr" for v
    using item[OF that] trim_braced by fastforce
  have items: "mapE (\<lambda>item. parseValue (trim item)) ?ts = Inr arr"
    by (rule mapE_map_Inr) (rule each)
  have obj: "filter (\<lambda>v. v \<noteq> JUndefined) arr = arr"
    using small by (auto simp: list_all_iff small_object_def intro!: filter_True)
  have rendered: "stringifyValue (JArray arr) 0 False col
      = c_lbrack # join [c_comma] ?ts @ [c_rbrack]"
    using standard_array_text[OF ne std, of 0 False] replace_none[OF nopipe] by simp
  have "parseArray (c_lbrack # join [c_comma] ?ts @ [c_rbrack]) = Inr (JArray arr)"
    unfolding parseArray_bracketed Let_def tj split items
    using jne nopipe obj by (simp add: includesChar_def)
  then show ?thesis unfolding rendered parse_bracketed .
qed




subsection \<open>Splitting a joined list of columns\<close>

subsection \<open>Columns\<close>

lemma pipe_hit:
  "splitByPipe_loop prev (c_pipe # rest) parts cur (Scan 0 False sc)
   = splitByPipe_loop (Some c_pipe) rest (parts @ [cur]) [] (Scan 0 False sc)"
  by (simp add: track_quiet quiet_def Let_def)

lemma splitByPipe_loop_join:
  assumes "\<And>t. t \<in> set (x # xs) \<Longrightarrow> list_all quiet t \<and> c_pipe \<notin> set t \<and> t \<noteq> []"
  shows "splitByPipe_loop prev (join [c_pipe] (x # xs)) parts [] (Scan 0 False sc)
         = parts @ x # xs"
  using assms
proof (induction xs arbitrary: x prev parts)
  case Nil
  then have x: "list_all quiet x" "c_pipe \<notin> set x" "x \<noteq> []" by simp_all
  show ?case
    using splitByPipe_skip[OF x(1,2), of prev "[]" parts "[]" "Scan 0 False sc"] x(3)
    by simp
next
  case (Cons y ys)
  have x: "list_all quiet x" "c_pipe \<notin> set x" "x \<noteq> []" using Cons.prems by simp_all
  have "splitByPipe_loop prev (x @ c_pipe # join [c_pipe] (y # ys)) parts [] (Scan 0 False sc)
      = splitByPipe_loop (last_char prev x) (c_pipe # join [c_pipe] (y # ys)) parts ([] @ x)
          (Scan 0 False sc)"
    by (rule splitByPipe_skip[OF x(1,2)])
  also have "\<dots> = splitByPipe_loop (Some c_pipe) (join [c_pipe] (y # ys)) (parts @ [x]) []
          (Scan 0 False sc)"
    by (subst pipe_hit) simp
  also have "\<dots> = (parts @ [x]) @ y # ys"
    by (rule Cons.IH) (use Cons.prems in simp)
  finally show ?case by simp
qed

lemma splitByPipe_join:
  assumes "ts \<noteq> []" and "\<And>t. t \<in> set ts \<Longrightarrow> list_all quiet t \<and> c_pipe \<notin> set t \<and> t \<noteq> []"
  shows "splitByPipe (join [c_pipe] ts) = ts"
proof -
  obtain x xs where ts: "ts = x # xs" using assms(1) by (cases ts) auto
  show ?thesis
    using splitByPipe_loop_join[of x xs None "[]" None] assms(2) ts
    by (simp add: splitByPipe_def scan0_def)
qed

lemma obj_set_append:
  assumes "k \<noteq> str ''__proto__''" and "\<not> is_array_index k" and "k \<notin> set (map fst obj)"
  shows "obj_set obj k v = obj @ [(k, v)]"
  using assms by (simp add: obj_set_def)

lemma foldl_obj_set:
  assumes "distinct (map fst obj @ ks)"
    and "\<And>k. k \<in> set ks \<Longrightarrow> k \<noteq> str ''__proto__'' \<and> \<not> is_array_index k"
  shows "foldl (\<lambda>row key. obj_set row key (f key)) obj ks = obj @ map (\<lambda>k. (k, f k)) ks"
  using assms
proof (induction ks arbitrary: obj)
  case Nil
  show ?case by simp
next
  case (Cons k ks)
  have "obj_set obj k (f k) = obj @ [(k, f k)]"
    by (rule obj_set_append) (use Cons.prems in auto)
  moreover have "foldl (\<lambda>row key. obj_set row key (f key)) (obj @ [(k, f k)]) ks
      = (obj @ [(k, f k)]) @ map (\<lambda>k. (k, f k)) ks"
    by (rule Cons.IH) (use Cons.prems in auto)
  ultimately show ?case by simp
qed

text \<open>The text of one column and of the cells in it.\<close>

definition cell_text :: "jvalue \<Rightarrow> jstring \<Rightarrow> jstring" where
  "cell_text obj key = stringifyValue (prop_get obj key) 1 False False"

definition column_text :: "jvalue list \<Rightarrow> jstring \<Rightarrow> jstring" where
  "column_text arr key = key @ [c_colon] @ join [c_comma] (map (\<lambda>obj. cell_text obj key) arr)"

lemma columnar_text:
  assumes "arr \<noteq> []" and "isArrayOfObjects arr"
  shows "stringifyValue (JArray arr) 0 False True
         = c_lbrack # join [c_pipe] (map (column_text arr) (keys_of (hd arr))) @ [c_rbrack]"
  using assms
  by (simp add: stringifyColumnar.simps[of arr] Let_def column_text_def[abs_def]
      cell_text_def[abs_def])

lemma set_join_plain:
  assumes "\<And>t. t \<in> set ts \<Longrightarrow> list_all P t" and "list_all P sep"
  shows "list_all P (join sep ts)"
  using assms by (induction sep ts rule: join.induct) (auto simp: list_all_iff)

lemma join_not_Nil: "ts \<noteq> [] \<Longrightarrow> (\<And>t. t \<in> set ts \<Longrightarrow> t \<noteq> []) \<Longrightarrow> join sep ts \<noteq> []"
  by (induction sep ts rule: join.induct) auto

subsection \<open>Reading a column\<close>

text \<open>
  \<open>column_values_of arr key\<close> is the column that \<open>stringifyColumnar\<close> renders
  under \<open>key\<close>: \<open>obj[key]\<close> of every row. \<open>row_of ks obj\<close> is the row that
  \<open>parseColumnarArray\<close> builds from the columns \<open>ks\<close>: the pairs of \<open>obj\<close> in
  the order of \<open>ks\<close>.
\<close>

definition column_values_of :: "jvalue list \<Rightarrow> jstring \<Rightarrow> jvalue list" where
  "column_values_of arr key = map (\<lambda>obj. prop_get obj key) arr"

definition row_of :: "jstring list \<Rightarrow> jvalue \<Rightarrow> jvalue" where
  "row_of ks obj = JObject (map (\<lambda>k. (k, prop_get obj k)) ks)"

lemma not_space_plain: "plain_char c \<Longrightarrow> \<not> is_space c"
  by (rule plain_char_facts(2))

lemma column_facts:
  assumes arr: "arr \<noteq> []" and k: "bare_key k"
    and cells: "\<And>obj. obj \<in> set arr \<Longrightarrow> bare_cell (prop_get obj k)"
  shows "list_all quiet (column_text arr k)" and "c_pipe \<notin> set (column_text arr k)"
    and "column_text arr k \<noteq> []" and "list_all (\<lambda>c. \<not> is_space c) (column_text arr k)"
    and "findTopLevelColon (column_text arr k) = Some (length k)"
    and "take (length k) (column_text arr k) = k"
    and "trim (drop (length k + 1) (column_text arr k))
         = join [c_comma] (map (\<lambda>obj. cell_text obj k) arr)"
    and "splitArrayItems (join [c_comma] (map (\<lambda>obj. cell_text obj k) arr))
         = map (\<lambda>obj. cell_text obj k) arr"
    and "mapE (\<lambda>v. parseValue (trim v)) (map (\<lambda>obj. cell_text obj k) arr)
         = Inr (column_values_of arr k)"
proof -
  let ?cells = "map (\<lambda>obj. cell_text obj k) arr"
  let ?v = "join [c_comma] ?cells"
  have kp: "list_all plain_char k" and kne: "k \<noteq> []" using k by (auto simp: bare_key_def)
  have cell: "cell_text obj k \<noteq> [] \<and> list_all plain_char (cell_text obj k)
      \<and> parseValue (cell_text obj k) = Inr (prop_get obj k)" if "obj \<in> set arr" for obj
    using bare_cell_text[OF cells[OF that], of 1 False False] by (simp add: cell_text_def)
  have cp: "list_all plain_char t \<and> t \<noteq> []" if "t \<in> set ?cells" for t
    using that cell by auto
  have cc: "plain_char c" if "t \<in> set ?cells" and "c \<in> set t" for t c
    using cp[OF that(1)] that(2) by (simp add: list_all_iff)
  have vq: "list_all quiet ?v"
  proof (rule set_join_plain)
    show "list_all quiet t" if "t \<in> set ?cells" for t
      using cc[OF that] plain_char_facts(1) unfolding list_all_iff by blast
    show "list_all quiet [c_comma]" by (simp add: quiet_def)
  qed
  have vs: "list_all (\<lambda>c. \<not> is_space c) ?v"
  proof (rule set_join_plain)
    show "list_all (\<lambda>c. \<not> is_space c) t" if "t \<in> set ?cells" for t
      using cc[OF that] plain_char_facts(2) unfolding list_all_iff by blast
    show "list_all (\<lambda>c. \<not> is_space c) [c_comma]" by (simp add: is_space_def)
  qed
  have vnp: "c_pipe \<notin> set ?v"
  proof -
    have "list_all (\<lambda>c. c \<noteq> c_pipe) ?v"
    proof (rule set_join_plain)
      show "list_all (\<lambda>c. c \<noteq> c_pipe) t" if "t \<in> set ?cells" for t
        using cc[OF that] plain_char_facts(4) unfolding list_all_iff by blast
      show "list_all (\<lambda>c. c \<noteq> c_pipe) [c_comma]" by simp
    qed
    then show ?thesis by (auto simp: list_all_iff)
  qed
  have col: "column_text arr k = k @ c_colon # ?v" by (simp add: column_text_def)
  show "list_all quiet (column_text arr k)"
    using plain_facts(1)[OF kp] vq by (simp add: col quiet_def)
  show "c_pipe \<notin> set (column_text arr k)"
    using plain_facts(3)[OF kp] vnp by (simp add: col)
  show "column_text arr k \<noteq> []" by (simp add: col)
  have ks: "list_all (\<lambda>c. \<not> is_space c) k"
    using kp plain_char_facts(2) unfolding list_all_iff by blast
  show "list_all (\<lambda>c. \<not> is_space c) (column_text arr k)"
    using ks vs by (simp add: col is_space_def)
  show "findTopLevelColon (column_text arr k) = Some (length k)"
    unfolding col by (rule findTopLevelColon_key[OF plain_facts(1,4)[OF kp]])
  show "take (length k) (column_text arr k) = k" by (simp add: col)
  show "trim (drop (length k + 1) (column_text arr k)) = ?v"
    using trim_no_space[OF vs] by (simp add: col)
  show "splitArrayItems ?v = ?cells"
    by (rule splitArrayItems_join) (use arr cp plain_comma_chunk in auto)
  have "mapE (\<lambda>v. parseValue (trim v)) (map (\<lambda>obj. cell_text obj k) arr) = Inr arr'"
    if "arr' = map (\<lambda>obj. prop_get obj k) arr" for arr'
    using that cell
  proof (induction arr arbitrary: arr')
    case Nil
    then show ?case by simp
  next
    case (Cons a as)
    have "trim (cell_text a k) = cell_text a k"
      using Cons.prems(2)[of a] plain_facts(5) by simp
    then have "parseValue (trim (cell_text a k)) = Inr (prop_get a k)"
      using Cons.prems(2)[of a] by simp
    moreover have "mapE (\<lambda>v. parseValue (trim v)) (map (\<lambda>obj. cell_text obj k) as)
        = Inr (map (\<lambda>obj. prop_get obj k) as)"
      by (rule Cons.IH) (use Cons.prems(2) in auto)
    ultimately show ?case using Cons.prems(1) by simp
  qed
  then show "mapE (\<lambda>v. parseValue (trim v)) ?cells = Inr (column_values_of arr k)"
    by (simp add: column_values_of_def)
qed

lemma columns_loop:
  assumes arr: "arr \<noteq> []"
    and ks: "\<And>k. k \<in> set ks \<Longrightarrow> bare_key k \<and> \<not> is_array_index k"
    and cells: "\<And>obj k. obj \<in> set arr \<Longrightarrow> k \<in> set ks \<Longrightarrow> bare_cell (prop_get obj k)"
    and dist: "distinct (map fst acc @ ks)"
  shows "forE (map (column_text arr) ks) acc (\<lambda>columns pair.
             if trim pair = [] then Inr columns
             else (case findTopLevelColon pair of
                     None \<Rightarrow> Inr columns
                   | Some colonIdx \<Rightarrow>
                       (let key = trim (take colonIdx pair);
                            valuesStr = trim (drop (colonIdx + 1) pair)
                        in case mapE (\<lambda>v. parseValue (trim v)) (splitArrayItems valuesStr) of
                             Inl err \<Rightarrow> Inl err
                           | Inr vs \<Rightarrow> Inr (obj_set columns key vs))))
         = Inr (acc @ map (\<lambda>k. (k, column_values_of arr k)) ks)"
  using ks cells dist
proof (induction ks arbitrary: acc)
  case Nil
  show ?case by simp
next
  case (Cons k ks)
  have bk: "bare_key k" and ni: "\<not> is_array_index k" using Cons.prems(1) by auto
  note f = column_facts[OF arr bk Cons.prems(2)[of _ k], simplified]
  have kp: "list_all plain_char k" and proto: "k \<noteq> str ''__proto__''"
    using bk by (auto simp: bare_key_def)
  have tc: "trim (column_text arr k) = column_text arr k" by (rule trim_no_space[OF f(4)])
  have set: "obj_set acc k (column_values_of arr k) = acc @ [(k, column_values_of arr k)]"
    by (rule obj_set_append[OF proto ni]) (use Cons.prems(3) in auto)
  have step: "(if trim (column_text arr k) = [] then Inr acc
             else (case findTopLevelColon (column_text arr k) of
                     None \<Rightarrow> Inr acc
                   | Some colonIdx \<Rightarrow>
                       (let key = trim (take colonIdx (column_text arr k));
                            valuesStr = trim (drop (colonIdx + 1) (column_text arr k))
                        in case mapE (\<lambda>v. parseValue (trim v)) (splitArrayItems valuesStr) of
                             Inl err \<Rightarrow> Inl err
                           | Inr vs \<Rightarrow> Inr (obj_set acc key vs))))
      = Inr (acc @ [(k, column_values_of arr k)])"
    using tc f(3) f(5) f(6) f(7) f(8) f(9) plain_facts(5)[OF kp] set
    by (simp add: Let_def)
  have rest: "forE (map (column_text arr) ks) (acc @ [(k, column_values_of arr k)])
      (\<lambda>columns pair.
             if trim pair = [] then Inr columns
             else (case findTopLevelColon pair of
                     None \<Rightarrow> Inr columns
                   | Some colonIdx \<Rightarrow>
                       (let key = trim (take colonIdx pair);
                            valuesStr = trim (drop (colonIdx + 1) pair)
                        in case mapE (\<lambda>v. parseValue (trim v)) (splitArrayItems valuesStr) of
                             Inl err \<Rightarrow> Inl err
                           | Inr vs \<Rightarrow> Inr (obj_set columns key vs))))
      = Inr ((acc @ [(k, column_values_of arr k)]) @ map (\<lambda>k. (k, column_values_of arr k)) ks)"
    by (rule Cons.IH) (use Cons.prems in auto)
  show ?case using step rest by simp
qed

lemma map_of_columns:
  assumes "k \<in> set ks"
  shows "map_of (map (\<lambda>k. (k, f k)) ks) k = Some (f k)"
  using assms by (induction ks) auto

lemma rows_of_columns:
  assumes arr: "arr \<noteq> []" and ks: "ks \<noteq> []" and dist: "distinct ks"
    and keys: "\<And>k. k \<in> set ks \<Longrightarrow> bare_key k \<and> \<not> is_array_index k"
  shows "rows_of (map (\<lambda>k. (k, column_values_of arr k)) ks) = map (row_of ks) arr"
proof -
  let ?cols = "map (\<lambda>k. (k, column_values_of arr k)) ks"
  have fst: "map fst ?cols = ks" by (simp add: comp_def)
  have hd: "length (snd (hd ?cols)) = length arr"
    using ks by (cases ks) (simp_all add: column_values_of_def)
  have cell: "column_at ?cols k i = prop_get (arr ! i) k" if "k \<in> set ks" and "i < length arr" for k i
    using map_of_columns[OF that(1), of "column_values_of arr"] that(2)
    by (simp add: column_at_def column_values_of_def)
  have row: "foldl (\<lambda>row key. obj_set row key (column_at ?cols key i)) [] ks
      = map (\<lambda>k. (k, prop_get (arr ! i) k)) ks" if "i < length arr" for i
  proof -
    have "foldl (\<lambda>row key. obj_set row key (column_at ?cols key i)) [] ks
        = [] @ map (\<lambda>k. (k, column_at ?cols k i)) ks"
      by (rule foldl_obj_set) (use dist keys in \<open>auto simp: bare_key_def\<close>)
    also have "\<dots> = map (\<lambda>k. (k, prop_get (arr ! i) k)) ks"
      using cell[OF _ that] by simp
    finally show ?thesis .
  qed
  have "rows_of ?cols
      = map (\<lambda>i. JObject (foldl (\<lambda>row key. obj_set row key (column_at ?cols key i)) [] ks))
          [0 ..< length arr]"
    unfolding rows_of_def Let_def fst hd using ks by simp
  also have "\<dots> = map (\<lambda>i. row_of ks (arr ! i)) [0 ..< length arr]"
    using row by (simp add: row_of_def)
  also have "\<dots> = map (row_of ks) arr"
    by (simp add: map_equality_iff)
  finally show ?thesis .
qed

lemma parseColumnarArray_columns:
  assumes arr: "arr \<noteq> []" and ks: "ks \<noteq> []" and dist: "distinct ks"
    and keys: "\<And>k. k \<in> set ks \<Longrightarrow> bare_key k \<and> \<not> is_array_index k"
    and cells: "\<And>obj k. obj \<in> set arr \<Longrightarrow> k \<in> set ks \<Longrightarrow> bare_cell (prop_get obj k)"
  shows "parseColumnarArray (join [c_pipe] (map (column_text arr) ks))
         = Inr (JArray (map (row_of ks) arr))"
proof -
  have split: "splitByPipe (join [c_pipe] (map (column_text arr) ks)) = map (column_text arr) ks"
  proof (rule splitByPipe_join)
    show "map (column_text arr) ks \<noteq> []" using ks by simp
  next
    fix t assume "t \<in> set (map (column_text arr) ks)"
    then obtain k where k: "k \<in> set ks" and t: "t = column_text arr k" by auto
    note f = column_facts[OF arr conjunct1[OF keys[OF k]] cells[OF _ k]]
    show "list_all quiet t \<and> c_pipe \<notin> set t \<and> t \<noteq> []"
      using f(1) f(2) f(3) by (simp add: t)
  qed
  have loop: "forE (map (column_text arr) ks) [] (\<lambda>columns pair.
             if trim pair = [] then Inr columns
             else (case findTopLevelColon pair of
                     None \<Rightarrow> Inr columns
                   | Some colonIdx \<Rightarrow>
                       (let key = trim (take colonIdx pair);
                            valuesStr = trim (drop (colonIdx + 1) pair)
                        in case mapE (\<lambda>v. parseValue (trim v)) (splitArrayItems valuesStr) of
                             Inl err \<Rightarrow> Inl err
                           | Inr vs \<Rightarrow> Inr (obj_set columns key vs))))
         = Inr ([] @ map (\<lambda>k. (k, column_values_of arr k)) ks)"
    by (rule columns_loop[OF arr keys cells]) (use dist in auto)
  show ?thesis
    unfolding parseColumnarArray.simps[of "join [c_pipe] (map (column_text arr) ks)"] split loop
    using rows_of_columns[OF arr ks dist keys] by simp
qed

subsection \<open>Arrays of objects with one key set\<close>

text \<open>
  \<open>plain_table arr\<close>: the first row has at least two keys, no key twice, every key a
  bare token that is neither \<open>__proto__\<close> nor an array index, and every cell of
  every row under these keys is null, undefined, a boolean, a Number or a String that
  is a bare token and does not read as a literal or a number. \<open>same_object a b\<close> is
  deep equality of two Objects whose values are scalars: the same key set and the same
  value under every key, whatever the order of the keys.
\<close>

definition plain_table :: "jvalue list \<Rightarrow> bool" where
  "plain_table arr =
     (let ks = keys_of (hd arr)
      in 2 \<le> length ks \<and> distinct ks
         \<and> list_all (\<lambda>k. bare_key k \<and> \<not> is_array_index k) ks
         \<and> list_all (\<lambda>obj. list_all (\<lambda>k. bare_cell (prop_get obj k)) ks) arr)"

definition same_object :: "jvalue \<Rightarrow> jvalue \<Rightarrow> bool" where
  "same_object a b =
     (is_object a \<and> is_object b \<and> set (keys_of a) = set (keys_of b)
      \<and> list_all (\<lambda>k. prop_get a k = prop_get b k) (keys_of a))"

lemma columnar_parse:
  assumes iao: "isArrayOfObjects arr" and pt: "plain_table arr"
  shows "parse (stringifyValue (JArray arr) 0 False True)
         = Inr (JArray (map (row_of (keys_of (hd arr))) arr))"
proof -
  let ?ks = "keys_of (hd arr)"
  let ?body = "join [c_pipe] (map (column_text arr) ?ks)"
  have arr: "arr \<noteq> []" using iao by (simp add: isArrayOfObjects_def)
  have len: "2 \<le> length ?ks" and dist: "distinct ?ks"
    using pt by (simp_all add: plain_table_def Let_def)
  have keys: "bare_key k \<and> \<not> is_array_index k" if "k \<in> set ?ks" for k
    using pt that by (simp add: plain_table_def Let_def list_all_iff)
  have cells: "bare_cell (prop_get obj k)" if "obj \<in> set arr" and "k \<in> set ?ks" for obj k
    using pt that by (simp add: plain_table_def Let_def list_all_iff)
  have ks: "?ks \<noteq> []" using len by auto
  obtain k1 k2 rest where split: "?ks = k1 # k2 # rest"
    using len by (cases ?ks; cases "tl ?ks") auto
  have k1: "k1 \<in> set ?ks" by (simp add: split)
  note f = column_facts[OF arr conjunct1[OF keys] cells]
  have rendered: "stringifyValue (JArray arr) 0 False True = c_lbrack # ?body @ [c_rbrack]"
    by (rule columnar_text[OF arr iao])
  have nospace: "list_all (\<lambda>c. \<not> is_space c) ?body"
  proof (rule set_join_plain)
    fix t assume "t \<in> set (map (column_text arr) ?ks)"
    then obtain k where k: "k \<in> set ?ks" and t: "t = column_text arr k" by auto
    show "list_all (\<lambda>c. \<not> is_space c) t" unfolding t by (rule f(4)[OF k _ k])
  next
    show "list_all (\<lambda>c. \<not> is_space c) [c_pipe]" by (simp add: is_space_def)
  qed
  have trim: "trim ?body = ?body" by (rule trim_no_space[OF nospace])
  have pipe: "includesChar c_pipe ?body" by (simp add: includesChar_def split)
  have colon: "includesChar c_colon ?body"
    by (simp add: includesChar_def split column_text_def)
  have ne: "?body \<noteq> []" using pipe by (auto simp: includesChar_def)
  have "parse (c_lbrack # ?body @ [c_rbrack]) = parseColumnarArray ?body"
    unfolding parse_bracketed parseArray_bracketed Let_def trim using ne pipe colon by simp
  also have "\<dots> = Inr (JArray (map (row_of ?ks) arr))"
    by (rule parseColumnarArray_columns[OF arr ks dist keys cells])
  finally show ?thesis by (simp only: rendered)
qed

lemma row_of_same_order:
  assumes "is_object obj" and "distinct (keys_of obj)"
  shows "row_of (keys_of obj) obj = obj"
proof -
  obtain es where obj: "obj = JObject es" using assms(1) by (cases obj) (auto simp: is_object_def)
  have d: "distinct (map fst es)" using assms(2) by (simp add: obj keys_of_def)
  have "map (\<lambda>k. (k, case map_of es k of None \<Rightarrow> JUndefined | Some v \<Rightarrow> v)) (map fst es) = es"
  proof (rule nth_equalityI)
    show "length (map (\<lambda>k. (k, case map_of es k of None \<Rightarrow> JUndefined | Some v \<Rightarrow> v)) (map fst es))
        = length es" by simp
  next
    fix i assume "i < length (map (\<lambda>k. (k, case map_of es k of None \<Rightarrow> JUndefined | Some v \<Rightarrow> v))
        (map fst es))"
    then have i: "i < length es" by simp
    then have "(fst (es ! i), snd (es ! i)) \<in> set es" by simp
    then have "map_of es (fst (es ! i)) = Some (snd (es ! i))"
      by (rule map_of_is_SomeI[OF d])
    then show "map (\<lambda>k. (k, case map_of es k of None \<Rightarrow> JUndefined | Some v \<Rightarrow> v)) (map fst es) ! i
        = es ! i" using i by simp
  qed
  then show ?thesis by (simp add: obj row_of_def keys_of_def prop_get_def)
qed

lemma keys_of_row_of: "keys_of (row_of ks obj) = ks"
  by (simp add: row_of_def keys_of_def comp_def)

lemma prop_get_row_of:
  assumes "k \<in> set ks"
  shows "prop_get (row_of ks obj) k = prop_get obj k"
proof -
  have "map_of (map (\<lambda>k. (k, prop_get obj k)) ks) k = Some (prop_get obj k)"
    by (rule map_of_columns[OF assms])
  then show ?thesis unfolding row_of_def by (simp add: prop_get_def)
qed

lemma row_of_same_object:
  assumes "is_object obj" and "set (keys_of obj) = set ks"
  shows "same_object (row_of ks obj) obj"
proof -
  have a: "is_object (row_of ks obj)" by (simp add: row_of_def is_object_def)
  have b: "set (keys_of (row_of ks obj)) = set (keys_of obj)"
    unfolding keys_of_row_of assms(2) ..
  have c: "list_all (\<lambda>k. prop_get (row_of ks obj) k = prop_get obj k) (keys_of (row_of ks obj))"
    unfolding keys_of_row_of list_all_iff using prop_get_row_of by blast
  show ?thesis unfolding same_object_def using a assms(1) b c by blast
qed

lemma uniform_rows:
  assumes "isArrayOfObjects arr" and "obj \<in> set arr"
  shows "is_object obj" and "set (keys_of obj) = set (keys_of (hd arr))"
proof -
  have "list_all is_object arr" using assms(1) unfolding isArrayOfObjects_def by blast
  then show "is_object obj" unfolding list_all_iff using assms(2) by blast
  have "list_all (\<lambda>item. sort (keys_of item) = sort (keys_of (hd arr))) arr"
    using assms(1) unfolding isArrayOfObjects_def Let_def by blast
  then have "sort (keys_of obj) = sort (keys_of (hd arr))"
    unfolding list_all_iff using assms(2) by blast
  then have "set (sort (keys_of obj)) = set (sort (keys_of (hd arr)))" by (rule arg_cong)
  then show "set (keys_of obj) = set (keys_of (hd arr))" by (simp only: set_sort)
qed




end
